theory Spec2Isabelle
  imports Main "HOL-Library.Word" "HOL-Library.Signed_Division" "HOL-Library.Multiset"
begin

section \<open>The IO buffer pool of buffers.c\<close>

text \<open>
  The development embeds the routines of \<^verbatim>\<open>buffers.c\<close> that manage the fixed pool of
  IO buffers: \<^verbatim>\<open>ffmbyt\<close>, \<^verbatim>\<open>ffpbyt\<close>, \<^verbatim>\<open>ffgbyt\<close>, \<^verbatim>\<open>ffpbytoff\<close>, \<^verbatim>\<open>ffgbytoff\<close>,
  \<^verbatim>\<open>ffldrc\<close>, \<^verbatim>\<open>ffwhbf\<close>, \<^verbatim>\<open>ffflsh\<close>, \<^verbatim>\<open>ffbfwt\<close>, \<^verbatim>\<open>ffgrsz\<close> and
  \<^verbatim>\<open>fits_get_num_files\<close>.

  Conventions.
  \<^item> The global arrays \<^verbatim>\<open>iobuffer\<close>, \<^verbatim>\<open>bufptr\<close>, \<^verbatim>\<open>bufrecnum\<close>, \<^verbatim>\<open>dirty\<close> and
    \<^verbatim>\<open>ageindex\<close> are total maps from the index to the element; every loop of the source
    runs over the indices \<open>0..<NIOBUF\<close> only.
  \<^item> A \<^verbatim>\<open>FITSfile *\<close> is the number of the file in a table of file structures; the null
    pointer of \<^verbatim>\<open>bufptr\<close> is \<open>None\<close>.
  \<^item> C \<^verbatim>\<open>long\<close> and \<^verbatim>\<open>int\<close> values are mathematical integers (no claim depends on
    overflow); \<^verbatim>\<open>/\<close> and \<^verbatim>\<open>%\<close> are the truncating \<open>sdiv\<close> and \<open>smod\<close>.
  \<^item> \<^verbatim>\<open>*status > 0\<close> is \<open>status \<noteq> OK\<close>.
  \<^item> Where the C program has no defined behaviour (an index outside an array, a null
    \<^verbatim>\<open>FITSfile\<close> pointer, a \<^verbatim>\<open>memcpy\<close> outside a buffer) the model returns \<open>None\<close>.
  \<^item> Every routine first compares \<^verbatim>\<open>fptr->HDUposition\<close> with \<^verbatim>\<open>curhdu\<close> and calls the HDU
    navigator \<^verbatim>\<open>ffmahd\<close> when they differ. The navigator is outside this file; the model
    describes the calls in which the two agree.
\<close>

subsection \<open>Constants and types\<close>

text \<open>
  Modelled from the spec: the header \<^verbatim>\<open>fitsio2.h\<close> that defines \<^verbatim>\<open>IOBUFLEN\<close>,
  \<^verbatim>\<open>NIOBUF\<close> and \<^verbatim>\<open>MINDIRECT\<close> is not among the sources; the values are those of the
  specification (\<open>L = 2880\<close>, \<open>N = 40\<close>, \<open>M = 5760\<close>).
\<close>

definition IOBUFLEN :: int where
  "IOBUFLEN = 2880"

definition NIOBUF :: nat where
  "NIOBUF = 40"

definition MINDIRECT :: int where
  "MINDIRECT = 5760"

type_synonym byte = "8 word"

text \<open>
  Modelled from the spec: the status codes of \<^verbatim>\<open>fitsio.h\<close> (not among the sources), as the
  error kinds of the specification; \<open>OK\<close> is the status 0.
\<close>

datatype status = OK | TOO_MANY_FILES | WRITE_ERROR | END_OF_FILE | READ_ERROR | NEG_FILE_POS

datatype err_mode = REPORT_EOF | IGNORE_EOF

datatype hdutype = IMAGE_HDU | ASCII_TBL | BINARY_TBL

subsection \<open>The platform I/O driver\<close>

text \<open>
  The disk file behind a \<^verbatim>\<open>FITSfile\<close>: its bytes, its length, the position of the next
  transfer, and the outcomes of the coming write calls (\<open>False\<close> is a failing call; an
  exhausted list means that every further call succeeds).
\<close>

record device =
  content :: "int \<Rightarrow> byte"
  dsize :: int
  dpos :: int
  wscript :: "bool list"

text \<open>
  Modelled from the spec: the driver calls \<^verbatim>\<open>ffseek\<close>, \<^verbatim>\<open>ffwrite\<close> and \<^verbatim>\<open>ffread\<close> are
  not among the sources. \<open>seek\<close> sets the position; \<open>write\<close> and \<open>read\<close> return at once
  when the status is already an error, transfer \<open>n\<close> bytes at the position and advance it,
  and report a failure through the status; a read beyond the end of the file fails.
\<close>

definition dev_seek :: "device \<Rightarrow> int \<Rightarrow> device" where
  "dev_seek d p = d\<lparr>dpos := p\<rparr>"

definition dev_write :: "device \<Rightarrow> int \<Rightarrow> (int \<Rightarrow> byte) \<Rightarrow> status \<Rightarrow> device \<times> status" where
  "dev_write d n buf st =
     (if st \<noteq> OK then (d, st)
      else if wscript d \<noteq> [] \<and> \<not> hd (wscript d) then (d\<lparr>wscript := tl (wscript d)\<rparr>, WRITE_ERROR)
      else (d\<lparr>content := (\<lambda>i. if dpos d \<le> i \<and> i < dpos d + n then buf (i - dpos d)
                               else if dsize d \<le> i \<and> i < dpos d then 0
                               else content d i),
              dsize := (if 0 < n then max (dsize d) (dpos d + n) else dsize d),
              dpos := dpos d + n,
              wscript := tl (wscript d)\<rparr>, OK))"

definition dev_read :: "device \<Rightarrow> int \<Rightarrow> status \<Rightarrow> device \<times> (int \<Rightarrow> byte) option \<times> status" where
  "dev_read d n st =
     (if st \<noteq> OK then (d, None, st)
      else if dpos d < 0 \<or> dsize d < dpos d + n then (d, None, READ_ERROR)
      else (d\<lparr>dpos := dpos d + n\<rparr>, Some (\<lambda>i. content d (dpos d + i)), OK))"

subsection \<open>File structures and the pool\<close>

record FITSfile =
  filehandle :: device
  filesize :: int
  logfilesize :: int
  bytepos :: int
  io_pos :: int
  curbuf :: int
  hdutype :: hdutype
  rowlength :: int

record pool =
  iobuffer :: "nat \<Rightarrow> int \<Rightarrow> byte"
  bufptr :: "nat \<Rightarrow> nat option"
  bufrecnum :: "nat \<Rightarrow> int"
  dirty :: "nat \<Rightarrow> bool"
  ageindex :: "nat \<Rightarrow> nat"
  ageinit :: bool
  fits :: "nat \<Rightarrow> FITSfile"

definition upd_file :: "pool \<Rightarrow> nat \<Rightarrow> (FITSfile \<Rightarrow> FITSfile) \<Rightarrow> pool" where
  "upd_file st F g = st\<lparr>fits := (fits st)(F := g (fits st F))\<rparr>"

definition ffseek :: "pool \<Rightarrow> nat \<Rightarrow> int \<Rightarrow> pool" where
  "ffseek st F p = upd_file st F (\<lambda>g. g\<lparr>filehandle := dev_seek (filehandle g) p\<rparr>)"

definition ffwrite :: "pool \<Rightarrow> nat \<Rightarrow> int \<Rightarrow> (int \<Rightarrow> byte) \<Rightarrow> status \<Rightarrow> pool \<times> status" where
  "ffwrite st F n buf status =
     (case dev_write (filehandle (fits st F)) n buf status of
        (d, status') \<Rightarrow> (upd_file st F (\<lambda>g. g\<lparr>filehandle := d\<rparr>), status'))"

definition ffread :: "pool \<Rightarrow> nat \<Rightarrow> int \<Rightarrow> status \<Rightarrow> pool \<times> (int \<Rightarrow> byte) option \<times> status" where
  "ffread st F n status =
     (case dev_read (filehandle (fits st F)) n status of
        (d, r, status') \<Rightarrow> (upd_file st F (\<lambda>g. g\<lparr>filehandle := d\<rparr>), r, status'))"

text \<open>The buffer fill value of the current HDU: blanks in an ASCII table, zeros elsewhere.\<close>

definition fill_value :: "hdutype \<Rightarrow> byte" where
  "fill_value t = (if t = ASCII_TBL then 32 else 0)"

text \<open>\<^verbatim>\<open>memcpy(iobuffer[n] + off, src, len)\<close> and the copy of a device block into a buffer.\<close>

definition memcpy_in :: "pool \<Rightarrow> nat \<Rightarrow> int \<Rightarrow> byte list \<Rightarrow> int \<Rightarrow> pool" where
  "memcpy_in st n off src len =
     st\<lparr>iobuffer := (iobuffer st)(n := (\<lambda>i. if off \<le> i \<and> i < off + len
                                               then src ! nat (i - off) else iobuffer st n i))\<rparr>"

definition memcpy_out :: "pool \<Rightarrow> nat \<Rightarrow> int \<Rightarrow> int \<Rightarrow> byte list" where
  "memcpy_out st n off len = map (\<lambda>i. iobuffer st n (off + int i)) [0..<nat len]"

definition set_buffer :: "pool \<Rightarrow> nat \<Rightarrow> (int \<Rightarrow> byte) option \<Rightarrow> pool" where
  "set_buffer st n r =
     (case r of None \<Rightarrow> st
      | Some b \<Rightarrow> st\<lparr>iobuffer := (iobuffer st)(n := (\<lambda>i. if 0 \<le> i \<and> i < IOBUFLEN
                                                       then b i else iobuffer st n i))\<rparr>)"

definition memset_buffer :: "pool \<Rightarrow> nat \<Rightarrow> byte \<Rightarrow> pool" where
  "memset_buffer st n v =
     st\<lparr>iobuffer := (iobuffer st)(n := (\<lambda>i. if 0 \<le> i \<and> i < IOBUFLEN then v else iobuffer st n i))\<rparr>"

subsection \<open>ffbfwt: write a buffer to disk\<close>

text \<open>
  The \<^verbatim>\<open>for\<close> loop of the branch beyond the EOF: the lowest record of the file at or after
  \<open>minrec\<close> and below the requested one, with its buffer.
\<close>

definition lowest_rec :: "pool \<Rightarrow> nat \<Rightarrow> int \<Rightarrow> nat \<Rightarrow> int \<times> nat" where
  "lowest_rec st F minrec nbuff =
     fold (\<lambda>ii (irec, ibuff).
             if bufptr st ii = Some F \<and> minrec \<le> bufrecnum st ii \<and> bufrecnum st ii < irec
             then (bufrecnum st ii, ii) else (irec, ibuff))
          [0..<NIOBUF] (bufrecnum st nbuff, nbuff)"

text \<open>The fill records appended when the chosen record starts beyond the EOF.\<close>

definition append_fill :: "pool \<Rightarrow> nat \<Rightarrow> int \<Rightarrow> status \<Rightarrow> pool \<times> status" where
  "append_fill st F filepos status =
     (if filepos > filesize (fits st F)
      then (let nloop = (filepos - filesize (fits st F)) sdiv IOBUFLEN;
                (s, e) = ((\<lambda>(s, e). ffwrite s F IOBUFLEN (\<lambda>_. 0) e) ^^ nat nloop) (st, status)
            in (upd_file s F (\<lambda>g. g\<lparr>filesize := filepos\<rparr>), e))
      else (st, status))"

text \<open>
  One pass of the \<^verbatim>\<open>while\<close> loop: choose the record, append the fill records, write the
  buffer, clear its flag and advance the file size. The result carries the buffer written.
\<close>

definition ffbfwt_pass :: "pool \<Rightarrow> nat \<Rightarrow> nat \<Rightarrow> status \<Rightarrow> pool \<times> status \<times> nat" where
  "ffbfwt_pass st F nbuff status =
     (let minrec = filesize (fits st F) sdiv IOBUFLEN;
          (irec, ibuff) = lowest_rec st F minrec nbuff;
          filepos = irec * IOBUFLEN;
          (st1, status1) = append_fill st F filepos status;
          (st2, status2) = ffwrite st1 F IOBUFLEN (iobuffer st1 ibuff) status1;
          st3 = st2\<lparr>dirty := (dirty st2)(ibuff := False)\<rparr>;
          st4 = upd_file st3 F (\<lambda>g. g\<lparr>filesize := filesize g + IOBUFLEN\<rparr>)
      in (st4, status2, ibuff))"

lemma IOBUFLEN_pos: "0 < IOBUFLEN"
  by (simp add: IOBUFLEN_def)

lemma sdiv_nonneg: "0 \<le> a \<Longrightarrow> 0 < b \<Longrightarrow> a sdiv b = a div (b::int)"
  by (simp add: signed_divide_int_def sgn_if)

lemma sdiv_lower: "0 < b \<Longrightarrow> m * b \<le> a \<Longrightarrow> m \<le> a sdiv (b::int)"
proof -
  assume b: "0 < b" and m: "m * b \<le> a"
  have "m \<le> a div b"
    using b m zdiv_mono1 by fastforce
  moreover have "a div b \<le> a sdiv b"
    by (simp add: signed_divide_int_eq_divide_int)
  ultimately show ?thesis by simp
qed

lemma upd_file_simps [simp]:
  "iobuffer (upd_file st F g) = iobuffer st"
  "bufptr (upd_file st F g) = bufptr st"
  "bufrecnum (upd_file st F g) = bufrecnum st"
  "dirty (upd_file st F g) = dirty st"
  "ageindex (upd_file st F g) = ageindex st"
  "ageinit (upd_file st F g) = ageinit st"
  "fits (upd_file st F g) = (fits st)(F := g (fits st F))"
  by (simp_all add: upd_file_def)

lemma ffseek_simps [simp]:
  "iobuffer (ffseek st F p) = iobuffer st"
  "bufptr (ffseek st F p) = bufptr st"
  "bufrecnum (ffseek st F p) = bufrecnum st"
  "dirty (ffseek st F p) = dirty st"
  "ageindex (ffseek st F p) = ageindex st"
  "ageinit (ffseek st F p) = ageinit st"
  "fits (ffseek st F p) = (fits st)(F := (fits st F)\<lparr>filehandle := dev_seek (filehandle (fits st F)) p\<rparr>)"
  by (simp_all add: ffseek_def)

lemma ffwrite_simps [simp]:
  "iobuffer (fst (ffwrite st F n b e)) = iobuffer st"
  "bufptr (fst (ffwrite st F n b e)) = bufptr st"
  "bufrecnum (fst (ffwrite st F n b e)) = bufrecnum st"
  "dirty (fst (ffwrite st F n b e)) = dirty st"
  "ageindex (fst (ffwrite st F n b e)) = ageindex st"
  "ageinit (fst (ffwrite st F n b e)) = ageinit st"
  "fits (fst (ffwrite st F n b e)) =
     (fits st)(F := (fits st F)\<lparr>filehandle := fst (dev_write (filehandle (fits st F)) n b e)\<rparr>)"
  "snd (ffwrite st F n b e) = snd (dev_write (filehandle (fits st F)) n b e)"
  by (simp_all add: ffwrite_def split: prod.splits)

lemma lowest_rec_fold:
  assumes "fold (\<lambda>ii (irec, ibuff).
             if bufptr st ii = Some F \<and> minrec \<le> bufrecnum st ii \<and> bufrecnum st ii < irec
             then (bufrecnum st ii, ii) else (irec, ibuff)) xs (r0, b0) = (irec, ibuff)"
    and "r0 = bufrecnum st b0"
  shows "irec = bufrecnum st ibuff \<and> irec \<le> r0
         \<and> (ibuff = b0 \<or> (ibuff \<in> set xs \<and> bufptr st ibuff = Some F \<and> minrec \<le> irec \<and> irec < r0))
         \<and> (\<forall>ii\<in>set xs. bufptr st ii = Some F \<and> minrec \<le> bufrecnum st ii \<longrightarrow> irec \<le> bufrecnum st ii)"
  using assms
proof (induction xs arbitrary: r0 b0)
  case Nil
  then show ?case by auto
next
  case (Cons x xs)
  show ?case
  proof (cases "bufptr st x = Some F \<and> minrec \<le> bufrecnum st x \<and> bufrecnum st x < r0")
    case True
    with Cons.prems have "fold (\<lambda>ii (irec, ibuff).
             if bufptr st ii = Some F \<and> minrec \<le> bufrecnum st ii \<and> bufrecnum st ii < irec
             then (bufrecnum st ii, ii) else (irec, ibuff)) xs (bufrecnum st x, x) = (irec, ibuff)"
      by simp
    from Cons.IH [OF this refl] True show ?thesis
      by auto
  next
    case False
    with Cons.prems have "fold (\<lambda>ii (irec, ibuff).
             if bufptr st ii = Some F \<and> minrec \<le> bufrecnum st ii \<and> bufrecnum st ii < irec
             then (bufrecnum st ii, ii) else (irec, ibuff)) xs (r0, b0) = (irec, ibuff)"
      by auto
    from Cons.IH [OF this Cons.prems(2)] False show ?thesis
      by auto
  qed
qed

lemma lowest_rec_props:
  assumes "lowest_rec st F minrec nbuff = (irec, ibuff)"
  shows "irec = bufrecnum st ibuff" "irec \<le> bufrecnum st nbuff"
    "ibuff = nbuff \<or> (ibuff < NIOBUF \<and> bufptr st ibuff = Some F \<and> minrec \<le> irec
        \<and> irec < bufrecnum st nbuff)"
    "\<And>ii. ii < NIOBUF \<Longrightarrow> bufptr st ii = Some F \<Longrightarrow> minrec \<le> bufrecnum st ii
        \<Longrightarrow> irec \<le> bufrecnum st ii"
  using lowest_rec_fold [OF assms [unfolded lowest_rec_def] refl] by auto

text \<open>Two pool states that differ at most in the disk file of \<open>F\<close>.\<close>

definition dev_only :: "nat \<Rightarrow> pool \<Rightarrow> pool \<Rightarrow> bool" where
  "dev_only F st st' = (\<exists>d. st' = upd_file st F (\<lambda>g. g\<lparr>filehandle := d\<rparr>))"

lemma dev_only_refl [simp]: "dev_only F st st"
  unfolding dev_only_def by (rule exI [of _ "filehandle (fits st F)"]) (simp add: upd_file_def)

lemma dev_only_trans: "dev_only F st st1 \<Longrightarrow> dev_only F st1 st2 \<Longrightarrow> dev_only F st st2"
  unfolding dev_only_def by (auto simp: upd_file_def)

lemma dev_only_ffwrite: "dev_only F st (fst (ffwrite st F n b e))"
  unfolding dev_only_def
  by (rule exI [of _ "fst (dev_write (filehandle (fits st F)) n b e)"])
     (simp add: ffwrite_def upd_file_def split: prod.splits)

lemma dev_only_ffseek: "dev_only F st (ffseek st F p)"
  unfolding dev_only_def
  by (rule exI [of _ "dev_seek (filehandle (fits st F)) p"]) (simp add: ffseek_def upd_file_def)

lemma dev_onlyD:
  assumes "dev_only F st st'"
  shows "iobuffer st' = iobuffer st" "bufptr st' = bufptr st" "bufrecnum st' = bufrecnum st"
    "dirty st' = dirty st" "ageindex st' = ageindex st" "ageinit st' = ageinit st"
    "G \<noteq> F \<Longrightarrow> fits st' G = fits st G"
    "filesize (fits st' G) = filesize (fits st G)" "logfilesize (fits st' G) = logfilesize (fits st G)"
    "bytepos (fits st' G) = bytepos (fits st G)" "io_pos (fits st' G) = io_pos (fits st G)"
    "curbuf (fits st' G) = curbuf (fits st G)" "hdutype (fits st' G) = hdutype (fits st G)"
    "rowlength (fits st' G) = rowlength (fits st G)"
proof -
  from assms obtain d where e: "st' = upd_file st F (\<lambda>g. g\<lparr>filehandle := d\<rparr>)"
    unfolding dev_only_def by blast
  show "iobuffer st' = iobuffer st" "bufptr st' = bufptr st" "bufrecnum st' = bufrecnum st"
    "dirty st' = dirty st" "ageindex st' = ageindex st" "ageinit st' = ageinit st"
    "G \<noteq> F \<Longrightarrow> fits st' G = fits st G"
    "filesize (fits st' G) = filesize (fits st G)" "logfilesize (fits st' G) = logfilesize (fits st G)"
    "bytepos (fits st' G) = bytepos (fits st G)" "io_pos (fits st' G) = io_pos (fits st G)"
    "curbuf (fits st' G) = curbuf (fits st G)" "hdutype (fits st' G) = hdutype (fits st G)"
    "rowlength (fits st' G) = rowlength (fits st G)"
    by (simp_all add: e)
qed

lemma dev_only_zeros:
  "dev_only F st (fst (((\<lambda>(s, e). ffwrite s F n b e) ^^ k) (st, status)))"
proof (induction k)
  case 0
  then show ?case by simp
next
  case (Suc k)
  obtain s1 e1 where 1: "((\<lambda>(s, e). ffwrite s F n b e) ^^ k) (st, status) = (s1, e1)"
    by (cases "((\<lambda>(s, e). ffwrite s F n b e) ^^ k) (st, status)")
  with Suc have "dev_only F st s1" by simp
  from dev_only_trans [OF this dev_only_ffwrite] 1 show ?case
    by simp
qed

lemma append_fill_dev:
  assumes "append_fill st F filepos status = (st', status')"
  shows "\<exists>s. dev_only F st s \<and> st' = upd_file s F (\<lambda>g. g\<lparr>filesize := max filepos (filesize (fits st F))\<rparr>)"
proof (cases "filepos > filesize (fits st F)")
  case True
  let ?r = "((\<lambda>(s, e). ffwrite s F IOBUFLEN (\<lambda>_. 0) e)
        ^^ nat ((filepos - filesize (fits st F)) sdiv IOBUFLEN)) (st, status)"
  have "dev_only F st (fst ?r)"
    by (rule dev_only_zeros)
  moreover have "st' = upd_file (fst ?r) F (\<lambda>g. g\<lparr>filesize := max filepos (filesize (fits st F))\<rparr>)"
    using assms True by (simp add: append_fill_def Let_def max_def split: prod.splits)
  ultimately show ?thesis by blast
next
  case False
  then have "st' = st"
    using assms by (simp add: append_fill_def)
  moreover have "st = upd_file st F (\<lambda>g. g\<lparr>filesize := max filepos (filesize (fits st F))\<rparr>)"
    using False by (simp add: upd_file_def max_def)
  ultimately show ?thesis
    using dev_only_refl by metis
qed


lemma ffbfwt_pass_unfold:
  assumes "lowest_rec st F (filesize (fits st F) sdiv IOBUFLEN) nbuff = (irec, ib)"
    and "append_fill st F (irec * IOBUFLEN) status = (s1, e1)"
    and "w = ffwrite s1 F IOBUFLEN (iobuffer s1 ib) e1"
  shows "ffbfwt_pass st F nbuff status =
     (upd_file ((fst w)\<lparr>dirty := (dirty s1)(ib := False)\<rparr>) F
         (\<lambda>g. g\<lparr>filesize := filesize g + IOBUFLEN\<rparr>), snd w, ib)"
  using assms by (simp add: ffbfwt_pass_def Let_def case_prod_beta)

lemma ffbfwt_pass_props:
  assumes "ffbfwt_pass st F nbuff status = (st', status', ibuff)"
  shows "bufrecnum st' = bufrecnum st" "bufptr st' = bufptr st"
    "ageindex st' = ageindex st" "ageinit st' = ageinit st"
    "(bufrecnum st ibuff + 1) * IOBUFLEN \<le> filesize (fits st' F)"
    "ibuff = nbuff \<or> (ibuff < NIOBUF \<and> bufptr st ibuff = Some F
        \<and> filesize (fits st F) sdiv IOBUFLEN \<le> bufrecnum st ibuff
        \<and> bufrecnum st ibuff < bufrecnum st nbuff)"
proof -
  obtain irec ib where lr: "lowest_rec st F (filesize (fits st F) sdiv IOBUFLEN) nbuff = (irec, ib)"
    by (cases "lowest_rec st F (filesize (fits st F) sdiv IOBUFLEN) nbuff")
  obtain s1 e1 where af: "append_fill st F (irec * IOBUFLEN) status = (s1, e1)"
    by (cases "append_fill st F (irec * IOBUFLEN) status")
  from append_fill_dev [OF af] obtain s where s: "dev_only F st s"
    and s1: "s1 = upd_file s F (\<lambda>g. g\<lparr>filesize := max (irec * IOBUFLEN) (filesize (fits st F))\<rparr>)"
    by blast
  note lp = lowest_rec_props [OF lr]
  note d = dev_onlyD [OF s]
  define w where "w = ffwrite s1 F IOBUFLEN (iobuffer s1 ib) e1"
  have w: "dev_only F s1 (fst w)"
    unfolding w_def by (rule dev_only_ffwrite)
  note dw = dev_onlyD [OF w]
  from assms ffbfwt_pass_unfold [OF lr af w_def]
  have st': "st' = upd_file ((fst w)\<lparr>dirty := (dirty s1)(ib := False)\<rparr>) F
                     (\<lambda>g. g\<lparr>filesize := filesize g + IOBUFLEN\<rparr>)"
    and ib: "ibuff = ib"
    by auto
  show "bufrecnum st' = bufrecnum st" "bufptr st' = bufptr st"
    "ageindex st' = ageindex st" "ageinit st' = ageinit st"
    by (simp_all add: st' dw s1 d)
  show "(bufrecnum st ibuff + 1) * IOBUFLEN \<le> filesize (fits st' F)"
    using lp(1) by (simp add: st' dw s1 d ib algebra_simps)
  show "ibuff = nbuff \<or> (ibuff < NIOBUF \<and> bufptr st ibuff = Some F
        \<and> filesize (fits st F) sdiv IOBUFLEN \<le> bufrecnum st ibuff
        \<and> bufrecnum st ibuff < bufrecnum st nbuff)"
    using lp(1,3) ib by auto
qed

text \<open>
  The \<^verbatim>\<open>while (ibuff != nbuff)\<close> loop (entered with the impossible value \<^verbatim>\<open>NIOBUF\<close>, so its
  body runs at least once). The first component lists the record numbers in the order in
  which their buffers were written.
\<close>

function ffbfwt_loop :: "pool \<Rightarrow> nat \<Rightarrow> nat \<Rightarrow> status \<Rightarrow> int list \<times> pool \<times> status" where
  "ffbfwt_loop st F nbuff status =
     (case ffbfwt_pass st F nbuff status of
        (st', status', ibuff) \<Rightarrow>
          if ibuff \<noteq> nbuff
          then (case ffbfwt_loop st' F nbuff status' of (tr, r) \<Rightarrow> (bufrecnum st ibuff # tr, r))
          else ([bufrecnum st ibuff], st', status'))"
  by pat_completeness auto
termination
proof (relation "measure (\<lambda>(st, F, nbuff, status).
          nat (bufrecnum st nbuff - filesize (fits st F) sdiv IOBUFLEN))", goal_cases)
  case 1
  then show ?case by simp
next
  case (2 st F nbuff status st' y status' ibuff)
  then have p: "ffbfwt_pass st F nbuff status = (st', status', ibuff)"
    by simp
  note pp = ffbfwt_pass_props [OF p]
  from pp(6) 2 have lo: "filesize (fits st F) sdiv IOBUFLEN \<le> bufrecnum st ibuff"
    and hi: "bufrecnum st ibuff < bufrecnum st nbuff"
    by auto
  have "bufrecnum st ibuff + 1 \<le> filesize (fits st' F) sdiv IOBUFLEN"
    using pp(5) by (intro sdiv_lower IOBUFLEN_pos)
  with lo hi pp(1) show ?case
    by simp
qed


declare ffbfwt_loop.simps [simp del]

text \<open>The two branches of \<^verbatim>\<open>ffbfwt\<close>: the record lies within the file, or beyond the EOF.\<close>

definition ffbfwt_within :: "pool \<Rightarrow> nat \<Rightarrow> nat \<Rightarrow> status \<Rightarrow> pool \<times> status" where
  "ffbfwt_within st F nbuff status =
     (let filepos = bufrecnum st nbuff * IOBUFLEN;
          st1 = (if io_pos (fits st F) \<noteq> filepos then ffseek st F filepos else st);
          (st2, status2) = ffwrite st1 F IOBUFLEN (iobuffer st1 nbuff) status;
          st3 = upd_file st2 F (\<lambda>g. g\<lparr>io_pos := filepos + IOBUFLEN\<rparr>);
          st4 = (if filepos = filesize (fits st3 F)
                 then upd_file st3 F (\<lambda>g. g\<lparr>filesize := filesize g + IOBUFLEN\<rparr>)
                 else st3)
      in (st4\<lparr>dirty := (dirty st4)(nbuff := False)\<rparr>, status2))"

definition ffbfwt_beyond :: "pool \<Rightarrow> nat \<Rightarrow> nat \<Rightarrow> status \<Rightarrow> pool \<times> status" where
  "ffbfwt_beyond st F nbuff status =
     (let st1 = (if io_pos (fits st F) \<noteq> filesize (fits st F)
                 then ffseek st F (filesize (fits st F)) else st);
          (tr, st2, status2) = ffbfwt_loop st1 F nbuff status
      in (upd_file st2 F (\<lambda>g. g\<lparr>io_pos := filesize g\<rparr>), status2))"

definition ffbfwt :: "pool \<Rightarrow> nat \<Rightarrow> status \<Rightarrow> (pool \<times> status) option" where
  "ffbfwt st nbuff status =
     (case bufptr st nbuff of
        None \<Rightarrow> None
      | Some F \<Rightarrow>
          Some (if bufrecnum st nbuff * IOBUFLEN \<le> filesize (fits st F)
                then ffbfwt_within st F nbuff status
                else ffbfwt_beyond st F nbuff status))"

subsection \<open>ffwhbf: which buffer to reuse\<close>

text \<open>A buffer may be reused when it is empty or is not the current buffer of its file.\<close>

definition reusable :: "pool \<Rightarrow> nat \<Rightarrow> bool" where
  "reusable st ibuff =
     (case bufptr st ibuff of None \<Rightarrow> True | Some G \<Rightarrow> curbuf (fits st G) \<noteq> int ibuff)"

definition age_list :: "pool \<Rightarrow> nat list" where
  "age_list st = map (ageindex st) [0..<NIOBUF]"

definition ffwhbf :: "pool \<Rightarrow> nat \<Rightarrow> pool \<times> int" where
  "ffwhbf st F =
     (let st1 = (if \<not> ageinit st then st\<lparr>ageindex := (\<lambda>ii. ii), ageinit := True\<rparr> else st)
      in case find (reusable st1) (age_list st1) of
           Some ibuff \<Rightarrow> (st1, int ibuff)
         | None \<Rightarrow> (st1, curbuf (fits st1 F)))"

subsection \<open>ffldrc: load a record\<close>

text \<open>
  The search from the youngest to the oldest buffer; the argument is \<^verbatim>\<open>ibuff + 1\<close>, the
  result the position \<^verbatim>\<open>ibuff\<close> of the hit in the age index.
\<close>

fun scan_loaded :: "pool \<Rightarrow> nat \<Rightarrow> int \<Rightarrow> nat \<Rightarrow> nat option" where
  "scan_loaded st F record 0 = None"
| "scan_loaded st F record (Suc ibuff) =
     (if bufptr st (ageindex st ibuff) = Some F \<and> record = bufrecnum st (ageindex st ibuff)
      then Some ibuff else scan_loaded st F record ibuff)"

text \<open>
  The code after the label \<^verbatim>\<open>updatebuf\<close>: \<open>hit\<close> is the position found by the search, or
  \<open>None\<close> when the search ran to \<^verbatim>\<open>ibuff = -1\<close> and the position is looked up again.
\<close>

definition updatebuf :: "pool \<Rightarrow> nat \<Rightarrow> nat \<Rightarrow> nat option \<Rightarrow> pool" where
  "updatebuf st F nbuff hit =
     (let ibuff = (case hit of
                     Some i \<Rightarrow> i
                   | None \<Rightarrow> (case find (\<lambda>i. ageindex st i = nbuff) [0..<NIOBUF] of
                                Some i \<Rightarrow> i | None \<Rightarrow> NIOBUF));
          a = fold (\<lambda>i a. a(i - 1 := a i)) [Suc ibuff..<NIOBUF] (ageindex st)
      in (upd_file st F (\<lambda>g. g\<lparr>curbuf := int nbuff\<rparr>))\<lparr>ageindex := a(NIOBUF - 1 := nbuff)\<rparr>)"

text \<open>
  The part of \<^verbatim>\<open>ffldrc\<close> that gives the chosen buffer its content: the fill value when
  the record starts at or beyond the EOF, the record read from disk otherwise.
\<close>

definition ffldrc_fill :: "pool \<Rightarrow> nat \<Rightarrow> nat \<Rightarrow> int \<Rightarrow> status \<Rightarrow> pool \<times> status" where
  "ffldrc_fill st F nbuff rstart status =
     (if filesize (fits st F) \<le> rstart
      then (let s1 = memset_buffer st nbuff (fill_value (hdutype (fits st F)));
                s2 = upd_file s1 F (\<lambda>g. g\<lparr>logfilesize := max (logfilesize g) (rstart + IOBUFLEN)\<rparr>)
            in (s2\<lparr>dirty := (dirty s2)(nbuff := True)\<rparr>, status))
      else (let s1 = (if io_pos (fits st F) \<noteq> rstart then ffseek st F rstart else st);
                (s2, r, e) = ffread s1 F IOBUFLEN status;
                s3 = set_buffer s2 nbuff r
            in (upd_file s3 F (\<lambda>g. g\<lparr>io_pos := rstart + IOBUFLEN\<rparr>), e)))"

definition ffldrc :: "pool \<Rightarrow> nat \<Rightarrow> int \<Rightarrow> err_mode \<Rightarrow> status \<Rightarrow> (pool \<times> status) option" where
  "ffldrc st F record err_mode status =
     (case scan_loaded st F record NIOBUF of
        Some ibuff \<Rightarrow> Some (updatebuf st F (ageindex st ibuff) (Some ibuff), status)
      | None \<Rightarrow>
          (let rstart = record * IOBUFLEN in
           if err_mode = REPORT_EOF \<and> logfilesize (fits st F) \<le> rstart then Some (st, END_OF_FILE)
           else (case ffwhbf st F of
                   (st1, nb) \<Rightarrow>
                     if nb < 0 then Some (st1, TOO_MANY_FILES)
                     else if int NIOBUF \<le> nb then None
                     else (let nbuff = nat nb in
                           case (if dirty st1 nbuff then ffbfwt st1 nbuff status else Some (st1, status)) of
                             None \<Rightarrow> None
                           | Some (st2, status2) \<Rightarrow>
                               (let (st3, status3) = ffldrc_fill st2 F nbuff rstart status2;
                                    st4 = st3\<lparr>bufptr := (bufptr st3)(nbuff := Some F),
                                              bufrecnum := (bufrecnum st3)(nbuff := record)\<rparr>
                                in Some (updatebuf st4 F nbuff None, status3))))))"

subsection \<open>ffmbyt: move to a byte position\<close>

definition valid_buf :: "int \<Rightarrow> bool" where
  "valid_buf n = (0 \<le> n \<and> n < int NIOBUF)"

definition ffmbyt :: "pool \<Rightarrow> nat \<Rightarrow> int \<Rightarrow> err_mode \<Rightarrow> status \<Rightarrow> (pool \<times> status) option" where
  "ffmbyt st F pos err_mode status =
     (if status \<noteq> OK then Some (st, status)
      else if pos < 0 then Some (st, NEG_FILE_POS)
      else if \<not> valid_buf (curbuf (fits st F)) then None
      else (case (if pos sdiv IOBUFLEN \<noteq> bufrecnum st (nat (curbuf (fits st F)))
                  then ffldrc st F (pos sdiv IOBUFLEN) err_mode status else Some (st, status)) of
              None \<Rightarrow> None
            | Some (st1, status1) \<Rightarrow>
                Some (if status1 = OK then upd_file st1 F (\<lambda>g. g\<lparr>bytepos := pos\<rparr>) else st1, status1)))"

subsection \<open>ffflsh: flush the buffers of a file\<close>

primrec for_each :: "(nat \<Rightarrow> 'a \<Rightarrow> 'a option) \<Rightarrow> nat list \<Rightarrow> 'a \<Rightarrow> 'a option" where
  "for_each body [] s = Some s"
| "for_each body (i # is) s = (case body i s of None \<Rightarrow> None | Some s' \<Rightarrow> for_each body is s')"

definition ffflsh_body :: "nat \<Rightarrow> bool \<Rightarrow> nat \<Rightarrow> pool \<times> status \<Rightarrow> (pool \<times> status) option" where
  "ffflsh_body F clearbuf ii = (\<lambda>(st, status).
     if bufptr st ii = Some F
     then (case (if dirty st ii then ffbfwt st ii status else Some (st, status)) of
             None \<Rightarrow> None
           | Some (st1, status1) \<Rightarrow>
               Some (if clearbuf then st1\<lparr>bufptr := (bufptr st1)(ii := None)\<rparr> else st1, status1))
     else Some (st, status))"

text \<open>The final \<^verbatim>\<open>ffflushx\<close> empties the system buffers and changes nothing in this model.\<close>

definition ffflsh :: "pool \<Rightarrow> nat \<Rightarrow> bool \<Rightarrow> status \<Rightarrow> (pool \<times> status) option" where
  "ffflsh st F clearbuf status = for_each (ffflsh_body F clearbuf) [0..<NIOBUF] (st, status)"


subsection \<open>ffpbyt: write bytes at the current position\<close>

text \<open>
  The loop of the branch through the IO buffers. The arguments after the file are the
  locals \<^verbatim>\<open>ntodo\<close>, \<^verbatim>\<open>bufpos\<close>, \<^verbatim>\<open>nspace\<close> and the rest of the user buffer at
  \<^verbatim>\<open>cptr\<close>. The status that \<^verbatim>\<open>ffldrc\<close> returns is not tested by the loop.
\<close>

function ffpbyt_loop ::
  "pool \<Rightarrow> nat \<Rightarrow> int \<Rightarrow> int \<Rightarrow> int \<Rightarrow> byte list \<Rightarrow> status \<Rightarrow> (pool \<times> status) option" where
  "ffpbyt_loop st F ntodo bufpos nspace cptr status =
     (if ntodo = 0 then Some (st, status)
      else if ntodo < 0 \<or> nspace < 0 \<or> bufpos < 0 \<or> IOBUFLEN < bufpos + min ntodo nspace
              \<or> int (length cptr) < ntodo \<or> \<not> valid_buf (curbuf (fits st F)) then None
      else (let nwrite = min ntodo nspace;
                cb = nat (curbuf (fits st F));
                st1 = memcpy_in st cb bufpos cptr nwrite;
                st2 = upd_file st1 F (\<lambda>g. g\<lparr>bytepos := bytepos g + nwrite\<rparr>);
                st3 = st2\<lparr>dirty := (dirty st2)(cb := True)\<rparr>
            in if ntodo - nwrite \<noteq> 0
               then (case ffldrc st3 F (bytepos (fits st3 F) sdiv IOBUFLEN) IGNORE_EOF status of
                       None \<Rightarrow> None
                     | Some (st4, status4) \<Rightarrow>
                         ffpbyt_loop st4 F (ntodo - nwrite) 0 IOBUFLEN (drop (nat nwrite) cptr) status4)
               else Some (st3, status)))"
  by pat_completeness auto
termination
  by (relation "measure (\<lambda>(st, F, ntodo, bufpos, nspace, cptr, status).
          2 * nat ntodo + (if nspace \<le> 0 then 1 else 0))")
     (auto simp: IOBUFLEN_def min_def split: if_splits)

declare ffpbyt_loop.simps [simp del]

text \<open>The loop of the direct branch that flushes and disassociates the affected buffers.\<close>

definition flush_affected :: "nat \<Rightarrow> int \<Rightarrow> int \<Rightarrow> nat \<Rightarrow> pool \<times> status \<Rightarrow> (pool \<times> status) option" where
  "flush_affected F recstart recend ii = (\<lambda>(st, status).
     if bufptr st ii = Some F \<and> recstart \<le> bufrecnum st ii \<and> bufrecnum st ii \<le> recend
     then (case (if dirty st ii then ffbfwt st ii status else Some (st, status)) of
             None \<Rightarrow> None
           | Some (st1, status1) \<Rightarrow> Some (st1\<lparr>bufptr := (bufptr st1)(ii := None)\<rparr>, status1))
     else Some (st, status))"

text \<open>
  The direct branch after the affected buffers are flushed: write all but the last
  record to disk, and leave the last one in the buffer \<open>nbuff\<close>.
\<close>

definition ffpbyt_tail :: "pool \<Rightarrow> nat \<Rightarrow> nat \<Rightarrow> int \<Rightarrow> int \<Rightarrow> int \<Rightarrow> byte list \<Rightarrow> status
    \<Rightarrow> (pool \<times> status) option" where
  "ffpbyt_tail st2 F nbuff recend filepos1 ntodo cptr status2 =
     (let st3 = (if io_pos (fits st2 F) \<noteq> filepos1 then ffseek st2 F filepos1 else st2);
          nwrite = ((ntodo - 1) sdiv IOBUFLEN) * IOBUFLEN;
          (st4, status4) = ffwrite st3 F nwrite (\<lambda>i. cptr ! nat i) status2;
          ntodo1 = ntodo - nwrite;
          cptr1 = drop (nat nwrite) cptr;
          st5 = upd_file st4 F (\<lambda>g. g\<lparr>io_pos := filepos1 + nwrite\<rparr>);
          (st6, status6) =
             (if filesize (fits st5 F) \<le> io_pos (fits st5 F)
              then (let s = upd_file st5 F (\<lambda>g. g\<lparr>filesize := io_pos g\<rparr>)
                    in (memset_buffer s nbuff (fill_value (hdutype (fits s F))), status4))
              else (let (s, r, e) = ffread st5 F IOBUFLEN status4;
                        s1 = set_buffer s nbuff r
                    in (upd_file s1 F (\<lambda>g. g\<lparr>io_pos := io_pos g + IOBUFLEN\<rparr>), e)))
      in if ntodo1 < 0 \<or> IOBUFLEN < ntodo1 then None
         else (let st7 = memcpy_in st6 nbuff 0 cptr1 ntodo1;
                   st8 = st7\<lparr>dirty := (dirty st7)(nbuff := True),
                             bufrecnum := (bufrecnum st7)(nbuff := recend),
                             bufptr := (bufptr st7)(nbuff := Some F)\<rparr>
               in Some (upd_file st8 F (\<lambda>g. g\<lparr>
                    logfilesize := max (logfilesize g) ((recend + 1) * IOBUFLEN),
                    bytepos := filepos1 + nwrite + ntodo1\<rparr>), status6)))"

definition ffpbyt_direct :: "pool \<Rightarrow> nat \<Rightarrow> int \<Rightarrow> byte list \<Rightarrow> status \<Rightarrow> (pool \<times> status) option" where
  "ffpbyt_direct st F nbytes buffer status =
     (let nbuff = nat (curbuf (fits st F));
          filepos = bytepos (fits st F);
          recstart = bufrecnum st nbuff;
          recend = (filepos + nbytes - 1) sdiv IOBUFLEN;
          bufpos = filepos - recstart * IOBUFLEN;
          nspace = IOBUFLEN - bufpos
      in if bufpos < 0 \<or> nspace < 0 \<or> nbytes < nspace then None
         else (let st1 = (if nspace \<noteq> 0
                          then (let s = memcpy_in st nbuff bufpos buffer nspace
                                in s\<lparr>dirty := (dirty s)(nbuff := True)\<rparr>)
                          else st)
               in case for_each (flush_affected F recstart recend) [0..<NIOBUF] (st1, status) of
                    None \<Rightarrow> None
                  | Some (st2, status2) \<Rightarrow>
                      ffpbyt_tail st2 F nbuff recend (filepos + nspace) (nbytes - nspace)
                        (drop (nat nspace) buffer) status2))"

definition ffpbyt :: "pool \<Rightarrow> nat \<Rightarrow> int \<Rightarrow> byte list \<Rightarrow> status \<Rightarrow> (pool \<times> status) option" where
  "ffpbyt st F nbytes buffer status =
     (if status \<noteq> OK then Some (st, status)
      else if \<not> valid_buf (curbuf (fits st F)) \<or> int (length buffer) < nbytes then None
      else if MINDIRECT \<le> nbytes then ffpbyt_direct st F nbytes buffer status
      else (let bufpos = bytepos (fits st F) - bufrecnum st (nat (curbuf (fits st F))) * IOBUFLEN
            in ffpbyt_loop st F nbytes bufpos (IOBUFLEN - bufpos) buffer status))"

subsection \<open>ffgbyt: read bytes at the current position\<close>

function ffgbyt_loop ::
  "pool \<Rightarrow> nat \<Rightarrow> int \<Rightarrow> int \<Rightarrow> int \<Rightarrow> byte list \<Rightarrow> status \<Rightarrow> (pool \<times> byte list \<times> status) option" where
  "ffgbyt_loop st F ntodo bufpos nspace got status =
     (if ntodo = 0 then Some (st, got, status)
      else if ntodo < 0 \<or> nspace < 0 \<or> bufpos < 0 \<or> IOBUFLEN < bufpos + min ntodo nspace
              \<or> \<not> valid_buf (curbuf (fits st F)) then None
      else (let nread = min ntodo nspace;
                got1 = got @ memcpy_out st (nat (curbuf (fits st F))) bufpos nread;
                st1 = upd_file st F (\<lambda>g. g\<lparr>bytepos := bytepos g + nread\<rparr>)
            in if ntodo - nread \<noteq> 0
               then (case ffldrc st1 F (bytepos (fits st1 F) sdiv IOBUFLEN) REPORT_EOF status of
                       None \<Rightarrow> None
                     | Some (st2, status2) \<Rightarrow>
                         ffgbyt_loop st2 F (ntodo - nread) 0 IOBUFLEN got1 status2)
               else Some (st1, got1, status)))"
  by pat_completeness auto
termination
  by (relation "measure (\<lambda>(st, F, ntodo, bufpos, nspace, got, status).
          2 * nat ntodo + (if nspace \<le> 0 then 1 else 0))")
     (auto simp: IOBUFLEN_def min_def split: if_splits)

declare ffgbyt_loop.simps [simp del]

definition flush_dirty :: "nat \<Rightarrow> int \<Rightarrow> int \<Rightarrow> nat \<Rightarrow> pool \<times> status \<Rightarrow> (pool \<times> status) option" where
  "flush_dirty F recstart recend ii = (\<lambda>(st, status).
     if dirty st ii \<and> bufptr st ii = Some F \<and> recstart \<le> bufrecnum st ii \<and> bufrecnum st ii \<le> recend
     then ffbfwt st ii status else Some (st, status))"

text \<open>
  The result lists the bytes delivered to the user buffer, in order; a direct read that
  fails delivers none.
\<close>

definition ffgbyt_direct :: "pool \<Rightarrow> nat \<Rightarrow> int \<Rightarrow> status \<Rightarrow> (pool \<times> byte list \<times> status) option" where
  "ffgbyt_direct st F nbytes status =
     (let filepos = bytepos (fits st F);
          recstart = bufrecnum st (nat (curbuf (fits st F)));
          recend = (filepos + nbytes - 1) sdiv IOBUFLEN
      in case for_each (flush_dirty F recstart recend) [0..<NIOBUF] (st, status) of
           None \<Rightarrow> None
         | Some (st1, status1) \<Rightarrow>
             (let st2 = (if io_pos (fits st1 F) \<noteq> filepos then ffseek st1 F filepos else st1);
                  (st3, r, e) = ffread st2 F nbytes status1
              in Some (upd_file st3 F (\<lambda>g. g\<lparr>io_pos := filepos + nbytes\<rparr>),
                       (case r of None \<Rightarrow> [] | Some b \<Rightarrow> map (\<lambda>i. b (int i)) [0..<nat nbytes]),
                       e)))"

definition ffgbyt :: "pool \<Rightarrow> nat \<Rightarrow> int \<Rightarrow> status \<Rightarrow> (pool \<times> byte list \<times> status) option" where
  "ffgbyt st F nbytes status =
     (if status \<noteq> OK then Some (st, [], status)
      else if \<not> valid_buf (curbuf (fits st F)) then None
      else if MINDIRECT \<le> nbytes then ffgbyt_direct st F nbytes status
      else (let bufpos = bytepos (fits st F) - bufrecnum st (nat (curbuf (fits st F))) * IOBUFLEN
            in ffgbyt_loop st F nbytes bufpos (IOBUFLEN - bufpos) [] status))"

subsection \<open>ffpbytoff and ffgbytoff: groups of bytes separated by a gap\<close>

text \<open>
  The locals of the two routines: the current buffer \<^verbatim>\<open>bcurrent\<close>, its record number
  \<^verbatim>\<open>record\<close>, the space left \<^verbatim>\<open>nspace\<close>, and the pointer \<^verbatim>\<open>ioptr\<close> as its offset from
  the start of \<^verbatim>\<open>iobuffer[bcurrent]\<close>.
\<close>

record cursor =
  bcurrent :: nat
  recno :: int
  nspace :: int
  ioptr :: int

text \<open>
  The step \<^verbatim>\<open>if (nspace <= 0)\<close> that follows a group other than the last; \<open>mark\<close> says
  whether the routine sets the dirty flag (it does when writing), \<open>em\<close> is the error mode of
  its \<^verbatim>\<open>ffldrc\<close> calls.
\<close>

definition next_record :: "nat \<Rightarrow> bool \<Rightarrow> err_mode \<Rightarrow> pool \<times> status \<times> cursor
    \<Rightarrow> (pool \<times> status \<times> cursor) option" where
  "next_record F mark em = (\<lambda>(st, status, c).
     if nspace c \<le> 0
     then (let st1 = (if mark then st\<lparr>dirty := (dirty st)(bcurrent c := True)\<rparr> else st);
               record = recno c + (IOBUFLEN - nspace c) sdiv IOBUFLEN
           in case ffldrc st1 F record em status of
                None \<Rightarrow> None
              | Some (st2, status2) \<Rightarrow>
                  if \<not> valid_buf (curbuf (fits st2 F)) then None
                  else (let bufpos = (- nspace c) smod IOBUFLEN
                        in Some (st2, status2,
                                 \<lparr>bcurrent = nat (curbuf (fits st2 F)), recno = record,
                                  nspace = IOBUFLEN - bufpos, ioptr = bufpos\<rparr>)))
     else Some (st, status, c))"

text \<open>One pass of the loop of \<^verbatim>\<open>ffpbytoff\<close> over the groups before the last.\<close>

definition put_group :: "nat \<Rightarrow> int \<Rightarrow> int \<Rightarrow> pool \<times> status \<times> cursor \<times> byte list
    \<Rightarrow> (pool \<times> status \<times> cursor \<times> byte list) option" where
  "put_group F gsize offset = (\<lambda>(st, status, c, cptr).
     let nwrite = min gsize (nspace c) in
     if nwrite < 0 \<or> ioptr c < 0 \<or> IOBUFLEN < ioptr c + nwrite \<or> int (length cptr) < gsize then None
     else (let st1 = memcpy_in st (bcurrent c) (ioptr c) cptr nwrite;
               cptr1 = drop (nat nwrite) cptr
           in case (if nwrite < gsize
                    then (let st2 = st1\<lparr>dirty := (dirty st1)(bcurrent c := True)\<rparr> in
                          case ffldrc st2 F (recno c + 1) IGNORE_EOF status of
                            None \<Rightarrow> None
                          | Some (st3, status3) \<Rightarrow>
                              if \<not> valid_buf (curbuf (fits st3 F)) \<or> IOBUFLEN < gsize - nwrite then None
                              else (let b = nat (curbuf (fits st3 F));
                                        nwrite2 = gsize - nwrite;
                                        st4 = memcpy_in st3 b 0 cptr1 nwrite2
                                    in Some (st4, status3,
                                             \<lparr>bcurrent = b, recno = recno c + 1,
                                              nspace = IOBUFLEN - offset - nwrite2,
                                              ioptr = offset + nwrite2\<rparr>)))
                    else Some (st1, status,
                               c\<lparr>nspace := nspace c - (offset + nwrite),
                                 ioptr := ioptr c + (offset + nwrite)\<rparr>)) of
                None \<Rightarrow> None
              | Some r \<Rightarrow>
                  (case next_record F True IGNORE_EOF r of
                     None \<Rightarrow> None
                   | Some (st5, status5, c5) \<Rightarrow> Some (st5, status5, c5, drop (nat gsize) cptr))))"

text \<open>The last group of \<^verbatim>\<open>ffpbytoff\<close>.\<close>

definition put_last :: "nat \<Rightarrow> int \<Rightarrow> pool \<times> status \<times> cursor \<times> byte list \<Rightarrow> (pool \<times> status \<times> nat) option" where
  "put_last F gsize = (\<lambda>(st, status, c, cptr).
     let nwrite = min gsize (nspace c) in
     if nwrite < 0 \<or> ioptr c < 0 \<or> IOBUFLEN < ioptr c + nwrite \<or> int (length cptr) < gsize then None
     else (let st1 = memcpy_in st (bcurrent c) (ioptr c) cptr nwrite;
               cptr1 = drop (nat nwrite) cptr
           in if nwrite < gsize
              then (let st2 = st1\<lparr>dirty := (dirty st1)(bcurrent c := True)\<rparr> in
                    case ffldrc st2 F (recno c + 1) IGNORE_EOF status of
                      None \<Rightarrow> None
                    | Some (st3, status3) \<Rightarrow>
                        if \<not> valid_buf (curbuf (fits st3 F)) \<or> IOBUFLEN < gsize - nwrite then None
                        else Some (memcpy_in st3 (nat (curbuf (fits st3 F))) 0 cptr1 (gsize - nwrite),
                                   status3, nat (curbuf (fits st3 F))))
              else Some (st1, status, bcurrent c)))"

primrec repeat_opt :: "nat \<Rightarrow> ('a \<Rightarrow> 'a option) \<Rightarrow> 'a \<Rightarrow> 'a option" where
  "repeat_opt 0 f x = Some x"
| "repeat_opt (Suc n) f x = (case f x of None \<Rightarrow> None | Some y \<Rightarrow> repeat_opt n f y)"

definition start_cursor :: "pool \<Rightarrow> nat \<Rightarrow> cursor" where
  "start_cursor st F =
     (let b = nat (curbuf (fits st F));
          bufpos = bytepos (fits st F) - bufrecnum st b * IOBUFLEN
      in \<lparr>bcurrent = b, recno = bufrecnum st b, nspace = IOBUFLEN - bufpos, ioptr = bufpos\<rparr>)"

definition ffpbytoff :: "pool \<Rightarrow> nat \<Rightarrow> int \<Rightarrow> int \<Rightarrow> int \<Rightarrow> byte list \<Rightarrow> status
    \<Rightarrow> (pool \<times> status) option" where
  "ffpbytoff st F gsize ngroups offset buffer status =
     (if status \<noteq> OK then Some (st, status)
      else if \<not> valid_buf (curbuf (fits st F)) then None
      else (case repeat_opt (nat (ngroups - 1)) (put_group F gsize offset)
                   (st, status, start_cursor st F, buffer) of
              None \<Rightarrow> None
            | Some r \<Rightarrow>
                (case put_last F gsize r of
                   None \<Rightarrow> None
                 | Some (st1, status1, b) \<Rightarrow>
                     Some (upd_file (st1\<lparr>dirty := (dirty st1)(b := True)\<rparr>) F
                             (\<lambda>g. g\<lparr>bytepos := bytepos g + ngroups * gsize + (ngroups - 1) * offset\<rparr>),
                           status1))))"

definition get_group :: "nat \<Rightarrow> int \<Rightarrow> int \<Rightarrow> pool \<times> status \<times> cursor \<times> byte list
    \<Rightarrow> (pool \<times> status \<times> cursor \<times> byte list) option" where
  "get_group F gsize offset = (\<lambda>(st, status, c, got).
     let nread = min gsize (nspace c) in
     if nread < 0 \<or> ioptr c < 0 \<or> IOBUFLEN < ioptr c + nread then None
     else (let got1 = got @ memcpy_out st (bcurrent c) (ioptr c) nread
           in case (if nread < gsize
                    then (case ffldrc st F (recno c + 1) REPORT_EOF status of
                            None \<Rightarrow> None
                          | Some (st3, status3) \<Rightarrow>
                              if \<not> valid_buf (curbuf (fits st3 F)) \<or> IOBUFLEN < gsize - nread then None
                              else (let b = nat (curbuf (fits st3 F));
                                        nread2 = gsize - nread
                                    in Some ((st3, status3,
                                             \<lparr>bcurrent = b, recno = recno c + 1,
                                              nspace = IOBUFLEN - offset - nread2,
                                              ioptr = offset + nread2\<rparr>),
                                             got1 @ memcpy_out st3 b 0 nread2)))
                    else Some ((st, status,
                               c\<lparr>nspace := nspace c - (offset + nread),
                                 ioptr := ioptr c + (offset + nread)\<rparr>), got1)) of
                None \<Rightarrow> None
              | Some (r, got2) \<Rightarrow>
                  (case next_record F False REPORT_EOF r of
                     None \<Rightarrow> None
                   | Some (st5, status5, c5) \<Rightarrow> Some (st5, status5, c5, got2))))"

definition get_last :: "nat \<Rightarrow> int \<Rightarrow> pool \<times> status \<times> cursor \<times> byte list
    \<Rightarrow> (pool \<times> status \<times> byte list) option" where
  "get_last F gsize = (\<lambda>(st, status, c, got).
     let nread = min gsize (nspace c) in
     if nread < 0 \<or> ioptr c < 0 \<or> IOBUFLEN < ioptr c + nread then None
     else (let got1 = got @ memcpy_out st (bcurrent c) (ioptr c) nread
           in if nread < gsize
              then (case ffldrc st F (recno c + 1) REPORT_EOF status of
                      None \<Rightarrow> None
                    | Some (st3, status3) \<Rightarrow>
                        if \<not> valid_buf (curbuf (fits st3 F)) \<or> IOBUFLEN < gsize - nread then None
                        else Some (st3, status3,
                                   got1 @ memcpy_out st3 (nat (curbuf (fits st3 F))) 0 (gsize - nread)))
              else Some (st, status, got1)))"

definition ffgbytoff :: "pool \<Rightarrow> nat \<Rightarrow> int \<Rightarrow> int \<Rightarrow> int \<Rightarrow> status
    \<Rightarrow> (pool \<times> byte list \<times> status) option" where
  "ffgbytoff st F gsize ngroups offset status =
     (if status \<noteq> OK then Some (st, [], status)
      else if \<not> valid_buf (curbuf (fits st F)) then None
      else (case repeat_opt (nat (ngroups - 1)) (get_group F gsize offset)
                   (st, status, start_cursor st F, []) of
              None \<Rightarrow> None
            | Some r \<Rightarrow>
                (case get_last F gsize r of
                   None \<Rightarrow> None
                 | Some (st1, status1, got) \<Rightarrow>
                     Some (upd_file st1 F
                             (\<lambda>g. g\<lparr>bytepos := bytepos g + ngroups * gsize + (ngroups - 1) * offset\<rparr>),
                           got, status1))))"

subsection \<open>ffgrsz: the optimal amount of data to access\<close>

definition fits_get_num_files :: "pool \<Rightarrow> nat" where
  "fits_get_num_files st =
     length (filter (\<lambda>ii. bufptr st ii \<noteq> None \<and> (\<forall>jj\<in>set [0..<ii]. bufptr st ii \<noteq> bufptr st jj))
               [0..<NIOBUF])"

text \<open>
  The type code of the image pixels comes from the column routine \<^verbatim>\<open>ffgtcl\<close>, which is
  outside this file, and is an argument here. The model describes the calls in which the
  structure of the HDU is defined (no call of \<^verbatim>\<open>ffrdef\<close>). A division by zero is \<open>None\<close>.
\<close>

definition ffgrsz :: "pool \<Rightarrow> nat \<Rightarrow> int \<Rightarrow> status \<Rightarrow> (int \<times> status) option" where
  "ffgrsz st F typecode status =
     (let nfiles = int (fits_get_num_files st) in
      if hdutype (fits st F) = IMAGE_HDU
      then (let bytesperpixel = typecode sdiv 10 in
            if bytesperpixel = 0 then None
            else Some (((int NIOBUF - nfiles) * IOBUFLEN) sdiv bytesperpixel, status))
      else Some (max 1 (((int NIOBUF - nfiles) * IOBUFLEN) sdiv max 1 (rowlength (fits st F))), status))"


subsection \<open>Concrete pool states\<close>

text \<open>
  The pool at process start (static storage is zero) and the structure of a new, empty
  file before its first record is loaded: no current buffer (\<open>curbuf = -1\<close>).
\<close>

definition new_file :: FITSfile where
  "new_file = \<lparr>filehandle = \<lparr>content = (\<lambda>_. 0), dsize = 0, dpos = 0, wscript = []\<rparr>,
               filesize = 0, logfilesize = 0, bytepos = 0, io_pos = 0, curbuf = - 1,
               hdutype = IMAGE_HDU, rowlength = 0\<rparr>"

definition init_pool :: pool where
  "init_pool = \<lparr>iobuffer = (\<lambda>_ _. 0), bufptr = (\<lambda>_. None), bufrecnum = (\<lambda>_. 0),
                dirty = (\<lambda>_. False), ageindex = (\<lambda>_. 0), ageinit = False,
                fits = (\<lambda>_. new_file)\<rparr>"

text \<open>Sequencing of calls that thread the pool and the status.\<close>

definition then_do :: "(pool \<times> status) option \<Rightarrow> (pool \<Rightarrow> status \<Rightarrow> 'a option) \<Rightarrow> 'a option" where
  "then_do r f = (case r of None \<Rightarrow> None | Some (st, status) \<Rightarrow> f st status)"

text \<open>
  A pool in which every buffer is the current buffer of a file of its own: buffer \<open>i\<close>
  holds record 0 of file \<open>i\<close>, for the files \<open>0..<NIOBUF\<close>; the other files have no buffer.
\<close>

definition full_pool :: pool where
  "full_pool = init_pool\<lparr>bufptr := (\<lambda>i. if i < NIOBUF then Some i else None),
                         ageindex := (\<lambda>i. i), ageinit := True,
                         fits := (\<lambda>G. if G < NIOBUF then new_file\<lparr>curbuf := int G\<rparr> else new_file)\<rparr>"

text \<open>
  A file whose current buffer has been disassociated (as \<^verbatim>\<open>ffflsh\<close> with \<^verbatim>\<open>clearbuf\<close> leaves
  it): buffer 0 still carries record number 0, and \<open>curbuf\<close> of file 0 still points to it.
\<close>

definition stale_pool :: pool where
  "stale_pool = init_pool\<lparr>fits := (fits init_pool)(0 := new_file\<lparr>curbuf := 0\<rparr>)\<rparr>"


section \<open>Properties\<close>

subsection \<open>Moving within the current record\<close>

text \<open>
  Claim C10. For every file, every position \<open>pos \<ge> 0\<close> and a clean entry status: when
  \<open>pos / IOBUFLEN\<close> equals the record number stored for the buffer \<open>curbuf\<close> of the file,
  \<^verbatim>\<open>ffmbyt\<close> loads nothing and changes nothing in the pool (no owner, record number,
  buffer content, dirty flag or age); the only change is that \<open>bytepos\<close> of the file
  becomes \<open>pos\<close>. No hypothesis is made on the owner of that buffer, so this holds also
  when the buffer no longer belongs to the file.
\<close>

theorem ffmbyt_same_record:
  assumes "0 \<le> pos" and "valid_buf (curbuf (fits st F))"
    and "pos sdiv IOBUFLEN = bufrecnum st (nat (curbuf (fits st F)))"
  shows "ffmbyt st F pos em OK = Some (st\<lparr>fits := (fits st)(F := (fits st F)\<lparr>bytepos := pos\<rparr>)\<rparr>, OK)"
  using assms by (simp add: ffmbyt_def upd_file_def)

theorem ffmbyt_same_record_witness:
  "bufptr stale_pool 0 = None \<and>
   ffmbyt stale_pool 0 100 REPORT_EOF OK
     = Some (stale_pool\<lparr>fits := (fits stale_pool)(0 := (fits stale_pool 0)\<lparr>bytepos := 100\<rparr>)\<rparr>, OK)"
proof -
  have 1: "(0::int) \<le> 100" by simp
  have 2: "valid_buf (curbuf (fits stale_pool 0))"
    by (simp add: valid_buf_def stale_pool_def new_file_def NIOBUF_def)
  have 3: "100 sdiv IOBUFLEN = bufrecnum stale_pool (nat (curbuf (fits stale_pool 0)))"
    by (simp add: stale_pool_def init_pool_def IOBUFLEN_def sdiv_nonneg)
  have "bufptr stale_pool 0 = None"
    by (simp add: stale_pool_def init_pool_def)
  with ffmbyt_same_record [OF 1 2 3, of REPORT_EOF] show ?thesis
    by simp
qed


lemma reusable_ffwhbf_init [simp]:
  "reusable (st\<lparr>ageindex := a, ageinit := b\<rparr>) = reusable st"
  by (simp add: reusable_def fun_eq_iff split: option.splits)

lemma age_list_nth: "k < NIOBUF \<Longrightarrow> age_list st ! k = ageindex st k"
  by (simp add: age_list_def)

lemma length_age_list [simp]: "length (age_list st) = NIOBUF"
  by (simp add: age_list_def)

lemma age_list_identity: "age_list (st\<lparr>ageindex := (\<lambda>ii. ii), ageinit := b\<rparr>) = [0..<NIOBUF]"
  by (simp add: age_list_def map_idI)

lemma scan_loaded_None_iff:
  "scan_loaded st F record n = None
     \<longleftrightarrow> (\<forall>k<n. \<not> (bufptr st (ageindex st k) = Some F \<and> record = bufrecnum st (ageindex st k)))"
  by (induction n) (auto simp: less_Suc_eq)

lemma scan_loaded_Some:
  "scan_loaded st F record n = Some k
     \<Longrightarrow> k < n \<and> bufptr st (ageindex st k) = Some F \<and> record = bufrecnum st (ageindex st k)"
  by (induction n) (auto split: if_splits)

subsection \<open>Choice of the buffer to reuse\<close>

text \<open>
  Claim C5. \<^verbatim>\<open>ffwhbf\<close> goes through the age index from the oldest entry (position 0) to
  the youngest and returns the first buffer that is empty or is not the current buffer of
  the file that owns it; when there is no such buffer it returns \<open>curbuf\<close> of the requesting
  file. The age index it goes through is the stored one, or the identity when this is the
  first call. When the value returned is negative (the file has no current buffer either),
  \<^verbatim>\<open>ffldrc\<close>, having found the record in no buffer and passed its EOF test, returns
  \<open>TOO_MANY_FILES\<close>.
\<close>

theorem ffwhbf_choice:
  assumes "ffwhbf st F = (st', nb)"
  shows "age_list st' = (if ageinit st then age_list st else [0..<NIOBUF])
       \<and> ((\<exists>k<NIOBUF. nb = int (age_list st' ! k) \<and> reusable st (age_list st' ! k)
                \<and> (\<forall>j<k. \<not> reusable st (age_list st' ! j)))
          \<or> ((\<forall>k<NIOBUF. \<not> reusable st (age_list st' ! k)) \<and> nb = curbuf (fits st F)))
       \<and> (nb < 0 \<longrightarrow> scan_loaded st F record NIOBUF = None
             \<longrightarrow> \<not> (em = REPORT_EOF \<and> logfilesize (fits st F) \<le> record * IOBUFLEN)
             \<longrightarrow> ffldrc st F record em status = Some (st', TOO_MANY_FILES))"
proof -
  define st1 where "st1 = (if \<not> ageinit st then st\<lparr>ageindex := (\<lambda>ii. ii), ageinit := True\<rparr> else st)"
  have r: "reusable st1 = reusable st"
    by (simp add: st1_def)
  have f: "fits st1 = fits st"
    by (simp add: st1_def)
  have a: "age_list st1 = (if ageinit st then age_list st else [0..<NIOBUF])"
    by (simp add: st1_def age_list_identity)
  have w: "ffwhbf st F = (case find (reusable st) (age_list st1) of
             Some ibuff \<Rightarrow> (st1, int ibuff) | None \<Rightarrow> (st1, curbuf (fits st F)))"
    by (simp add: ffwhbf_def Let_def st1_def [symmetric] r f cong: option.case_cong)
  have st': "st' = st1"
    using assms w by (auto split: option.splits)
  have choice: "(\<exists>k<NIOBUF. nb = int (age_list st1 ! k) \<and> reusable st (age_list st1 ! k)
                \<and> (\<forall>j<k. \<not> reusable st (age_list st1 ! j)))
          \<or> ((\<forall>k<NIOBUF. \<not> reusable st (age_list st1 ! k)) \<and> nb = curbuf (fits st F))"
  proof (cases "find (reusable st) (age_list st1)")
    case None
    then have "\<forall>k<NIOBUF. \<not> reusable st (age_list st1 ! k)"
      by (auto simp: find_None_iff in_set_conv_nth)
    moreover have "nb = curbuf (fits st F)"
      using assms w None by simp
    ultimately show ?thesis by blast
  next
    case (Some ibuff)
    then obtain k where "k < NIOBUF" "reusable st (age_list st1 ! k)" "ibuff = age_list st1 ! k"
      "\<forall>j<k. \<not> reusable st (age_list st1 ! j)"
      by (auto simp: find_Some_iff)
    moreover have "nb = int ibuff"
      using assms w Some by simp
    ultimately show ?thesis by blast
  qed
  have "ffldrc st F record em status = Some (st', TOO_MANY_FILES)"
    if "nb < 0" "scan_loaded st F record NIOBUF = None"
      "\<not> (em = REPORT_EOF \<and> logfilesize (fits st F) \<le> record * IOBUFLEN)"
    using that assms by (auto simp: ffldrc_def Let_def)
  with a choice show ?thesis
    unfolding st' by blast
qed

theorem ffwhbf_choice_witness:
  "ffwhbf full_pool NIOBUF = (full_pool, - 1)
   \<and> find (reusable full_pool) (age_list full_pool) = None
   \<and> ffldrc full_pool NIOBUF 0 IGNORE_EOF OK = Some (full_pool, TOO_MANY_FILES)"
proof -
  have p: "\<forall>k<NIOBUF. \<not> reusable full_pool (age_list full_pool ! k)"
    by (simp add: age_list_nth reusable_def full_pool_def init_pool_def new_file_def)
  then have n: "find (reusable full_pool) (age_list full_pool) = None"
    by (auto simp: find_None_iff in_set_conv_nth)
  then have w: "ffwhbf full_pool NIOBUF = (full_pool, - 1)"
    by (simp add: ffwhbf_def) (simp add: full_pool_def init_pool_def new_file_def)
  have s: "scan_loaded full_pool NIOBUF 0 NIOBUF = None"
    by (simp add: scan_loaded_None_iff full_pool_def init_pool_def)
  from ffwhbf_choice [OF w, of 0 IGNORE_EOF OK] s
  have "ffldrc full_pool NIOBUF 0 IGNORE_EOF OK = Some (full_pool, TOO_MANY_FILES)"
    by simp
  with w n show ?thesis by simp
qed

lemma updatebuf_simps [simp]:
  "iobuffer (updatebuf st F n h) = iobuffer st"
  "bufptr (updatebuf st F n h) = bufptr st"
  "bufrecnum (updatebuf st F n h) = bufrecnum st"
  "dirty (updatebuf st F n h) = dirty st"
  "ageinit (updatebuf st F n h) = ageinit st"
  "fits (updatebuf st F n h) = (fits st)(F := (fits st F)\<lparr>curbuf := int n\<rparr>)"
  by (simp_all add: updatebuf_def Let_def)

lemma dev_write_status: "snd (dev_write d n b e) = e \<or> snd (dev_write d n b e) = WRITE_ERROR"
  by (simp add: dev_write_def)

lemma ffwrite_status: "snd (ffwrite st F n b e) = e \<or> snd (ffwrite st F n b e) = WRITE_ERROR"
  using dev_write_status [of "filehandle (fits st F)" n b e] by simp

lemma zeros_status:
  "snd (((\<lambda>(s, e). ffwrite s F n b e) ^^ k) (st, e0)) = e0
   \<or> snd (((\<lambda>(s, e). ffwrite s F n b e) ^^ k) (st, e0)) = WRITE_ERROR"
proof (induction k)
  case 0
  then show ?case by simp
next
  case (Suc k)
  obtain s1 e1 where 1: "((\<lambda>(s, e). ffwrite s F n b e) ^^ k) (st, e0) = (s1, e1)"
    by (cases "((\<lambda>(s, e). ffwrite s F n b e) ^^ k) (st, e0)")
  with Suc dev_write_status [of "filehandle (fits s1 F)" n b e1] show ?case
    by auto
qed

lemma append_fill_status:
  "snd (append_fill st F p e) = e \<or> snd (append_fill st F p e) = WRITE_ERROR"
  using zeros_status [where F = F and n = IOBUFLEN and b = "\<lambda>_. 0" and st = st and ?e0.0 = e
      and k = "nat ((p - filesize (fits st F)) sdiv IOBUFLEN)"]
  by (auto simp: append_fill_def Let_def case_prod_beta)

lemma ffbfwt_pass_status:
  assumes "ffbfwt_pass st F nbuff e = (st', e', ibuff)"
  shows "e' = e \<or> e' = WRITE_ERROR"
proof -
  obtain irec ib where lr: "lowest_rec st F (filesize (fits st F) sdiv IOBUFLEN) nbuff = (irec, ib)"
    by (cases "lowest_rec st F (filesize (fits st F) sdiv IOBUFLEN) nbuff")
  obtain s1 e1 where af: "append_fill st F (irec * IOBUFLEN) e = (s1, e1)"
    by (cases "append_fill st F (irec * IOBUFLEN) e")
  from assms ffbfwt_pass_unfold [OF lr af refl]
  have "e' = snd (dev_write (filehandle (fits s1 F)) IOBUFLEN (iobuffer s1 ib) e1)"
    by auto
  with dev_write_status [of "filehandle (fits s1 F)" IOBUFLEN "iobuffer s1 ib" e1]
    append_fill_status [of st F "irec * IOBUFLEN" e] af
  show ?thesis by auto
qed

lemma ffbfwt_loop_status:
  "snd (snd (ffbfwt_loop st F nbuff e)) = e \<or> snd (snd (ffbfwt_loop st F nbuff e)) = WRITE_ERROR"
proof (induction st F nbuff e rule: ffbfwt_loop.induct)
  case (1 st F nbuff status)
  obtain st' status' ibuff where p: "ffbfwt_pass st F nbuff status = (st', status', ibuff)"
    by (cases "ffbfwt_pass st F nbuff status") auto
  note ps = ffbfwt_pass_status [OF p]
  show ?case
  proof (cases "ibuff = nbuff")
    case True
    with p ps show ?thesis
      by (subst (1 2) ffbfwt_loop.simps) simp
  next
    case False
    from "1.IH" [OF p [symmetric] refl False]
    have "snd (snd (ffbfwt_loop st' F nbuff status')) = status'
        \<or> snd (snd (ffbfwt_loop st' F nbuff status')) = WRITE_ERROR" .
    with p ps False show ?thesis
      by (subst (1 2) ffbfwt_loop.simps) (auto simp: case_prod_beta)
  qed
qed

lemma ffbfwt_status:
  assumes "ffbfwt st nbuff e = Some (st', e')"
  shows "e' = e \<or> e' = WRITE_ERROR"
proof -
  from assms obtain F where F: "bufptr st nbuff = Some F"
    by (auto simp: ffbfwt_def split: option.splits)
  show ?thesis
  proof (cases "bufrecnum st nbuff * IOBUFLEN \<le> filesize (fits st F)")
    case True
    with assms F have "e' = snd (ffbfwt_within st F nbuff e)"
      by (auto simp: ffbfwt_def)
    also have "\<dots> = snd (dev_write (filehandle (fits (if io_pos (fits st F) \<noteq> bufrecnum st nbuff * IOBUFLEN
                 then ffseek st F (bufrecnum st nbuff * IOBUFLEN) else st) F)) IOBUFLEN
                 (iobuffer st nbuff) e)"
      by (simp add: ffbfwt_within_def Let_def case_prod_beta)
    finally show ?thesis
      using dev_write_status by metis
  next
    case False
    with assms F have "e' = snd (ffbfwt_beyond st F nbuff e)"
      by (auto simp: ffbfwt_def)
    then show ?thesis
      using ffbfwt_loop_status [of "if io_pos (fits st F) \<noteq> filesize (fits st F)
                 then ffseek st F (filesize (fits st F)) else st" F nbuff e]
      by (simp add: ffbfwt_beyond_def Let_def case_prod_beta)
  qed
qed


lemma dev_read_status:
  "snd (snd (dev_read d n e)) = e \<or> snd (snd (dev_read d n e)) = READ_ERROR"
  by (simp add: dev_read_def)

lemma ffldrc_fill_status:
  "snd (ffldrc_fill st F nbuff rstart e) = e \<or> snd (ffldrc_fill st F nbuff rstart e) = READ_ERROR"
proof -
  have "snd (snd (ffread s F n e)) = e \<or> snd (snd (ffread s F n e)) = READ_ERROR" for s n
    using dev_read_status [of "filehandle (fits s F)" n e]
    by (simp add: ffread_def case_prod_beta)
  then show ?thesis
    by (simp add: ffldrc_fill_def Let_def case_prod_beta)
qed

lemma ffldrc_miss_status:
  assumes "scan_loaded st F record NIOBUF = None"
    and "\<not> (em = REPORT_EOF \<and> logfilesize (fits st F) \<le> record * IOBUFLEN)"
    and "ffldrc st F record em e = Some (st', e')"
  shows "e' = e \<or> e' = TOO_MANY_FILES \<or> e' = WRITE_ERROR \<or> e' = READ_ERROR"
proof -
  obtain st1 nb where w: "ffwhbf st F = (st1, nb)"
    by (cases "ffwhbf st F")
  show ?thesis
  proof (cases "nb < 0")
    case True
    with assms w show ?thesis
      by (auto simp: ffldrc_def Let_def)
  next
    case False
    with assms w have nb: "nb < int NIOBUF"
      by (auto simp: ffldrc_def Let_def split: if_splits)
    from assms w False nb obtain st2 e2
      where b: "(if dirty st1 (nat nb) then ffbfwt st1 (nat nb) e else Some (st1, e)) = Some (st2, e2)"
        and e': "e' = snd (ffldrc_fill st2 F (nat nb) (record * IOBUFLEN) e2)"
      by (auto simp: ffldrc_def Let_def case_prod_beta split: option.splits if_splits)
    from b have "e2 = e \<or> e2 = WRITE_ERROR"
      by (auto split: if_splits dest: ffbfwt_status)
    with e' ffldrc_fill_status [of st2 F "nat nb" "record * IOBUFLEN" e2] show ?thesis
      by auto
  qed
qed

subsection \<open>The EOF test of the loader\<close>

text \<open>
  Claim C6. Called with \<open>REPORT_EOF\<close> and a clean status on a pool whose age index covers
  the buffers \<open>0..<NIOBUF\<close>, \<^verbatim>\<open>ffldrc\<close> returns \<open>END_OF_FILE\<close> exactly when no buffer
  holds record \<open>b\<close> of the file and \<open>b * IOBUFLEN\<close> is at or beyond \<open>logfilesize\<close>. A record
  that is in a buffer is made current with status \<open>OK\<close>, wherever it lies relative to
  \<open>logfilesize\<close>.
\<close>

theorem ffldrc_eof_iff:
  assumes "set (age_list st) = {..<NIOBUF}"
  shows "((\<exists>st'. ffldrc st F b REPORT_EOF OK = Some (st', END_OF_FILE))
            \<longleftrightarrow> (\<forall>i<NIOBUF. \<not> (bufptr st i = Some F \<and> bufrecnum st i = b))
                 \<and> logfilesize (fits st F) \<le> b * IOBUFLEN)
       \<and> ((\<exists>i<NIOBUF. bufptr st i = Some F \<and> bufrecnum st i = b)
            \<longrightarrow> (\<exists>st' j. ffldrc st F b REPORT_EOF OK = Some (st', OK) \<and> j < NIOBUF
                   \<and> curbuf (fits st' F) = int j \<and> bufptr st' j = Some F \<and> bufrecnum st' j = b))"
proof -
  have cover: "(\<forall>k<NIOBUF. P (ageindex st k)) \<longleftrightarrow> (\<forall>i<NIOBUF. P i)" for P
  proof -
    have "(\<forall>k<NIOBUF. P (ageindex st k)) \<longleftrightarrow> (\<forall>i\<in>set (age_list st). P i)"
      by (auto simp: age_list_def)
    then show ?thesis
      using assms by auto
  qed
  have miss: "scan_loaded st F b NIOBUF = None
      \<longleftrightarrow> (\<forall>i<NIOBUF. \<not> (bufptr st i = Some F \<and> bufrecnum st i = b))"
    using cover [of "\<lambda>i. \<not> (bufptr st i = Some F \<and> b = bufrecnum st i)"]
    by (auto simp: scan_loaded_None_iff)
  have hit: "\<exists>st' j. ffldrc st F b REPORT_EOF OK = Some (st', OK) \<and> j < NIOBUF
                   \<and> curbuf (fits st' F) = int j \<and> bufptr st' j = Some F \<and> bufrecnum st' j = b"
    if "\<exists>i<NIOBUF. bufptr st i = Some F \<and> bufrecnum st i = b"
  proof -
    from that miss obtain k where k: "scan_loaded st F b NIOBUF = Some k"
      by (cases "scan_loaded st F b NIOBUF") auto
    note sk = scan_loaded_Some [OF k]
    have "ageindex st k \<in> set (age_list st)"
      using sk by (auto simp: age_list_def)
    with assms have "ageindex st k < NIOBUF"
      by auto
    with k sk show ?thesis
      by (auto simp: ffldrc_def)
  qed
  have eof: "(\<exists>st'. ffldrc st F b REPORT_EOF OK = Some (st', END_OF_FILE))
            \<longleftrightarrow> (\<forall>i<NIOBUF. \<not> (bufptr st i = Some F \<and> bufrecnum st i = b))
                 \<and> logfilesize (fits st F) \<le> b * IOBUFLEN"
  proof (cases "scan_loaded st F b NIOBUF")
    case None
    show ?thesis
    proof (cases "logfilesize (fits st F) \<le> b * IOBUFLEN")
      case True
      with None miss show ?thesis
        by (simp add: ffldrc_def)
    next
      case False
      then have "e' \<noteq> END_OF_FILE" if "ffldrc st F b REPORT_EOF OK = Some (st', e')" for st' e'
        using ffldrc_miss_status [OF None _ that] by auto
      with False show ?thesis
        by auto
    qed
  next
    case (Some k)
    with miss show ?thesis
      by (auto simp: ffldrc_def)
  qed
  from eof hit show ?thesis
    by blast
qed

theorem ffldrc_eof_iff_witness:
  "(\<exists>st'. ffldrc full_pool 0 1 REPORT_EOF OK = Some (st', END_OF_FILE))
   \<and> logfilesize (fits full_pool 0) \<le> 0 * IOBUFLEN
   \<and> (\<exists>st'. ffldrc full_pool 0 0 REPORT_EOF OK = Some (st', OK))"
proof -
  have a: "set (age_list full_pool) = {..<NIOBUF}"
    by (auto simp: age_list_def full_pool_def)
  have 1: "(\<forall>i<NIOBUF. \<not> (bufptr full_pool i = Some 0 \<and> bufrecnum full_pool i = 1))
        \<and> logfilesize (fits full_pool 0) \<le> 1 * IOBUFLEN"
    by (simp add: full_pool_def init_pool_def new_file_def IOBUFLEN_def NIOBUF_def)
  have 2: "\<exists>i<NIOBUF. bufptr full_pool i = Some 0 \<and> bufrecnum full_pool i = 0"
    by (rule exI [of _ 0]) (simp add: full_pool_def init_pool_def NIOBUF_def)
  have 3: "logfilesize (fits full_pool 0) \<le> 0 * IOBUFLEN"
    by (simp add: full_pool_def init_pool_def new_file_def NIOBUF_def)
  from ffldrc_eof_iff [OF a, of 0 1] 1 have "\<exists>st'. ffldrc full_pool 0 1 REPORT_EOF OK = Some (st', END_OF_FILE)"
    by blast
  moreover from ffldrc_eof_iff [OF a, of 0 0] 2 have "\<exists>st'. ffldrc full_pool 0 0 REPORT_EOF OK = Some (st', OK)"
    by blast
  ultimately show ?thesis
    using 3 by blast
qed


subsection \<open>The optimal amount of data\<close>

lemma fits_get_num_files_full: "fits_get_num_files full_pool = NIOBUF"
proof -
  have "filter (\<lambda>ii. bufptr full_pool ii \<noteq> None \<and> (\<forall>jj\<in>set [0..<ii]. bufptr full_pool ii \<noteq> bufptr full_pool jj))
          [0..<NIOBUF] = [0..<NIOBUF]"
    by (rule filter_True) (auto simp: full_pool_def)
  then show ?thesis
    by (simp add: fits_get_num_files_def)
qed

text \<open>
  Claim C7. With every buffer owned by a different file (\<open>NIOBUF\<close> open files),
  \<^verbatim>\<open>ffgrsz\<close> on an image HDU of one-byte pixels (type code 11) returns 0: the branch for
  images has no lower bound of 1, unlike the branch for tables.
\<close>

theorem ffgrsz_image_zero:
  "hdutype (fits full_pool 0) = IMAGE_HDU \<and> fits_get_num_files full_pool = NIOBUF
   \<and> ffgrsz full_pool 0 11 OK = Some (0, OK)"
  by (simp add: ffgrsz_def fits_get_num_files_full)
     (simp add: full_pool_def init_pool_def new_file_def NIOBUF_def)

theorem ffgrsz_image_zero_witness:
  "map_option fst (ffgrsz full_pool 0 11 OK) = Some 0"
  using ffgrsz_image_zero by simp


subsection \<open>The age index\<close>

text \<open>The age index is a permutation of the buffer numbers \<open>0..<NIOBUF\<close>.\<close>

definition age_perm :: "pool \<Rightarrow> bool" where
  "age_perm st = (mset (age_list st) = mset [0..<NIOBUF])"

text \<open>
  The invariant of the age index: its entries and the current buffers of all files are
  buffer numbers (or \<open>-1\<close>), and once \<^verbatim>\<open>ffwhbf\<close> has initialised it, it is a permutation.
\<close>

definition age_ok :: "pool \<Rightarrow> bool" where
  "age_ok st = ((\<forall>k<NIOBUF. ageindex st k < NIOBUF) \<and> (\<forall>G. curbuf (fits st G) < int NIOBUF)
                \<and> (ageinit st \<longrightarrow> age_perm st))"

definition age_step :: "pool \<Rightarrow> pool \<Rightarrow> bool" where
  "age_step st st' = ((age_ok st \<longrightarrow> age_ok st') \<and> (ageinit st \<longrightarrow> ageinit st'))"

lemma age_step_refl [simp]: "age_step st st"
  by (simp add: age_step_def)

lemma age_step_trans: "age_step st st1 \<Longrightarrow> age_step st1 st2 \<Longrightarrow> age_step st st2"
  by (auto simp: age_step_def)

lemma age_step_view:
  assumes "ageindex st' = ageindex st" "ageinit st' = ageinit st"
    "\<And>G. curbuf (fits st' G) = curbuf (fits st G)"
  shows "age_step st st'"
  using assms by (simp add: age_step_def age_ok_def age_perm_def age_list_def)

lemma shift_ages:
  "fold (\<lambda>i a. a(i - Suc 0 := a i)) [Suc ib..<m] a j =
     (if ib \<le> j \<and> Suc j < m then a (Suc j) else a j)"
proof (induction m arbitrary: j)
  case 0
  then show ?case by simp
next
  case (Suc m)
  show ?case
  proof (cases "Suc ib \<le> m")
    case True
    then have "[Suc ib..<Suc m] = [Suc ib..<m] @ [m]"
      by simp
    with Suc True show ?thesis
      by auto
  next
    case False
    then show ?thesis by auto
  qed
qed

lemma age_list_updatebuf:
  assumes "ib < NIOBUF"
  shows "map ((fold (\<lambda>i a. a(i - 1 := a i)) [Suc ib..<NIOBUF] a)(NIOBUF - 1 := n)) [0..<NIOBUF]
         = take ib (map a [0..<NIOBUF]) @ drop (Suc ib) (map a [0..<NIOBUF]) @ [n]"
  using assms
  by (intro nth_equalityI) (auto simp: shift_ages nth_append min_def)

lemma mset_move_last:
  assumes "ib < length xs" "xs ! ib = n"
  shows "mset (take ib xs @ drop (Suc ib) xs @ [n]) = mset xs"
proof -
  have "xs = take ib xs @ xs ! ib # drop (Suc ib) xs"
    using assms(1) by (rule id_take_nth_drop)
  then have "mset xs = mset (take ib xs @ xs ! ib # drop (Suc ib) xs)"
    by simp
  with assms(2) show ?thesis
    by simp
qed

lemma updatebuf_age:
  "ageindex (updatebuf st F n h) =
     (let ib = (case h of Some i \<Rightarrow> i
                | None \<Rightarrow> (case find (\<lambda>i. ageindex st i = n) [0..<NIOBUF] of Some i \<Rightarrow> i | None \<Rightarrow> NIOBUF))
      in (fold (\<lambda>i a. a(i - 1 := a i)) [Suc ib..<NIOBUF] (ageindex st))(NIOBUF - 1 := n))"
  by (simp add: updatebuf_def Let_def)

lemma age_ok_updatebuf:
  assumes ok: "age_ok st" and n: "n < NIOBUF"
    and h: "\<And>k. h = Some k \<Longrightarrow> k < NIOBUF \<and> ageindex st k = n"
  shows "age_ok (updatebuf st F n h)"
proof -
  define ib where "ib = (case h of Some i \<Rightarrow> i
                | None \<Rightarrow> (case find (\<lambda>i. ageindex st i = n) [0..<NIOBUF] of Some i \<Rightarrow> i | None \<Rightarrow> NIOBUF))"
  define a' where "a' = (fold (\<lambda>i a. a(i - 1 := a i)) [Suc ib..<NIOBUF] (ageindex st))(NIOBUF - 1 := n)"
  have a': "ageindex (updatebuf st F n h) = a'"
    by (simp add: updatebuf_age a'_def ib_def)
  have ib: "ib < NIOBUF \<Longrightarrow> ageindex st ib = n"
  proof (cases h)
    case None
    assume "ib < NIOBUF"
    with None obtain i where "find (\<lambda>i. ageindex st i = n) [0..<NIOBUF] = Some i" "ib = i"
      by (auto simp: ib_def split: option.splits)
    then show ?thesis
      by (auto simp: find_Some_iff)
  next
    case (Some k)
    with h [OF Some] show ?thesis
      by (simp add: ib_def)
  qed
  have range: "\<forall>k<NIOBUF. a' k < NIOBUF"
    using ok n by (auto simp: a'_def shift_ages age_ok_def)
  have cur: "\<forall>G. curbuf (fits (updatebuf st F n h) G) < int NIOBUF"
    using ok n by (auto simp: age_ok_def)
  have perm: "age_perm (updatebuf st F n h)" if i: "ageinit st"
  proof -
    from ok i have p: "mset (age_list st) = mset [0..<NIOBUF]"
      by (simp add: age_ok_def age_perm_def)
    have "n \<in> set (age_list st)"
      using n mset_eq_setD [OF p] by simp
    then have "\<exists>i<NIOBUF. ageindex st i = n"
      by (auto simp: age_list_def)
    then have "h = None \<Longrightarrow> find (\<lambda>i. ageindex st i = n) [0..<NIOBUF] \<noteq> None"
      by (auto simp: find_None_iff)
    with h have lt: "ib < NIOBUF"
      by (cases h) (auto simp: ib_def split: option.splits simp: find_Some_iff)
    have "age_list (updatebuf st F n h) = take ib (age_list st) @ drop (Suc ib) (age_list st) @ [n]"
      using age_list_updatebuf [OF lt] by (simp add: age_list_def a' a'_def)
    moreover have "age_list st ! ib = n"
      using ib [OF lt] lt by (simp add: age_list_def)
    ultimately have "mset (age_list (updatebuf st F n h)) = mset (age_list st)"
      using lt mset_move_last [of ib "age_list st" n] by simp
    with p show ?thesis
      by (simp only: age_perm_def)
  qed
  from range cur perm show ?thesis
    by (simp add: age_ok_def a')
qed

lemma age_ok_ffwhbf:
  assumes "age_ok st" "ffwhbf st F = (st', nb)"
  shows "age_ok st'" "ageinit st'" "nb < int NIOBUF" "fits st' = fits st"
proof -
  define st1 where "st1 = (if \<not> ageinit st then st\<lparr>ageindex := (\<lambda>ii. ii), ageinit := True\<rparr> else st)"
  have ok1: "age_ok st1"
    using assms(1) by (auto simp: st1_def age_ok_def age_perm_def age_list_identity)
  have i1: "ageinit st1"
    by (simp add: st1_def)
  have f: "fits st1 = fits st"
    by (simp add: st1_def)
  have w: "ffwhbf st F = (case find (reusable st1) (age_list st1) of
             Some ibuff \<Rightarrow> (st1, int ibuff) | None \<Rightarrow> (st1, curbuf (fits st1 F)))"
    by (simp add: ffwhbf_def Let_def st1_def [symmetric])
  have st': "st' = st1"
    using assms(2) w by (auto split: option.splits)
  show "age_ok st'" "ageinit st'" "fits st' = fits st"
    using ok1 i1 f by (simp_all add: st')
  show "nb < int NIOBUF"
  proof (cases "find (reusable st1) (age_list st1)")
    case None
    with assms(2) w ok1 show ?thesis
      by (auto simp: age_ok_def)
  next
    case (Some ibuff)
    then have "ibuff \<in> set (age_list st1)"
      by (auto simp: find_Some_iff)
    with ok1 have "ibuff < NIOBUF"
      by (auto simp: age_ok_def age_list_def)
    with assms(2) w Some show ?thesis
      by simp
  qed
qed


text \<open>The part of the pool that the age invariant reads.\<close>

definition age_view :: "pool \<Rightarrow> (nat \<Rightarrow> nat) \<times> bool \<times> (nat \<Rightarrow> int)" where
  "age_view st = (ageindex st, ageinit st, (\<lambda>G. curbuf (fits st G)))"

lemma age_step_same_view: "age_view st' = age_view st \<Longrightarrow> age_step st st'"
  by (rule age_step_view) (auto simp: age_view_def dest: fun_cong)

lemma age_view_upd_file [simp]:
  "(\<And>x. curbuf (g x) = curbuf x) \<Longrightarrow> age_view (upd_file st F g) = age_view st"
  by (simp add: age_view_def fun_eq_iff)

lemma age_view_simps [simp]:
  "age_view (ffseek st F p) = age_view st"
  "age_view (fst (ffwrite st F n b e)) = age_view st"
  "age_view (fst (ffread st F n e)) = age_view st"
  "age_view (memcpy_in st k off src len) = age_view st"
  "age_view (memset_buffer st k v) = age_view st"
  "age_view (set_buffer st k r) = age_view st"
  "age_view (st\<lparr>dirty := d\<rparr>) = age_view st"
  "age_view (st\<lparr>bufptr := bp\<rparr>) = age_view st"
  "age_view (st\<lparr>bufrecnum := br\<rparr>) = age_view st"
  by (simp_all add: age_view_def fun_eq_iff ffread_def memcpy_in_def memset_buffer_def
        set_buffer_def case_prod_beta split: option.splits)

lemma age_view_zeros:
  "age_view (fst (((\<lambda>(s, e). ffwrite s F n b e) ^^ k) (st, e0))) = age_view st"
  by (induction k) (simp_all add: case_prod_beta)

lemma age_view_append_fill [simp]: "age_view (fst (append_fill st F p e)) = age_view st"
  by (simp add: append_fill_def Let_def case_prod_beta age_view_zeros)

lemma age_view_ffbfwt_pass [simp]: "age_view (fst (ffbfwt_pass st F nbuff e)) = age_view st"
  by (simp add: ffbfwt_pass_def Let_def case_prod_beta)

lemma age_view_ffbfwt_loop [simp]: "age_view (fst (snd (ffbfwt_loop st F nbuff e))) = age_view st"
proof (induction st F nbuff e rule: ffbfwt_loop.induct)
  case (1 st F nbuff status)
  obtain st' status' ibuff where p: "ffbfwt_pass st F nbuff status = (st', status', ibuff)"
    by (cases "ffbfwt_pass st F nbuff status") auto
  have v: "age_view st' = age_view st"
    using age_view_ffbfwt_pass [of st F nbuff status] p by simp
  show ?case
  proof (cases "ibuff = nbuff")
    case True
    with p v show ?thesis
      by (subst ffbfwt_loop.simps) simp
  next
    case False
    from "1.IH" [OF p [symmetric] refl False] v
    have "age_view (fst (snd (ffbfwt_loop st' F nbuff status'))) = age_view st"
      by simp
    with p False show ?thesis
      by (subst ffbfwt_loop.simps) (simp add: case_prod_beta)
  qed
qed

lemma age_view_ffbfwt:
  assumes "ffbfwt st nbuff e = Some (st', e')"
  shows "age_view st' = age_view st"
proof -
  from assms obtain F where F: "bufptr st nbuff = Some F"
    by (auto simp: ffbfwt_def split: option.splits)
  have "age_view (fst (ffbfwt_within st F nbuff e)) = age_view st"
    by (simp add: ffbfwt_within_def Let_def case_prod_beta)
  moreover have "age_view (fst (ffbfwt_beyond st F nbuff e)) = age_view st"
    by (simp add: ffbfwt_beyond_def Let_def case_prod_beta)
  ultimately show ?thesis
    using assms F by (auto simp: ffbfwt_def split: if_splits)
qed

lemma age_view_ffldrc_fill [simp]: "age_view (fst (ffldrc_fill st F nbuff rstart e)) = age_view st"
  by (simp add: ffldrc_fill_def Let_def case_prod_beta)

lemma age_ok_view:
  assumes "age_view st' = age_view st"
  shows "age_ok st' = age_ok st"
proof -
  from assms have "ageindex st' = ageindex st" "ageinit st' = ageinit st"
    "\<And>G. curbuf (fits st' G) = curbuf (fits st G)"
    by (auto simp: age_view_def dest: fun_cong)
  then show ?thesis
    by (simp add: age_ok_def age_perm_def age_list_def)
qed

lemma ageinit_view: "age_view st' = age_view st \<Longrightarrow> ageinit st' = ageinit st"
  by (simp add: age_view_def)

lemma age_step_ffldrc:
  assumes "ffldrc st F record em e = Some (st', e')"
  shows "age_step st st'"
proof (cases "scan_loaded st F record NIOBUF")
  case (Some k)
  note sk = scan_loaded_Some [OF Some]
  from assms Some have st': "st' = updatebuf st F (ageindex st k) (Some k)"
    by (simp add: ffldrc_def)
  have "age_ok st'" if ok: "age_ok st"
    unfolding st' using ok sk by (intro age_ok_updatebuf) (auto simp: age_ok_def)
  then show ?thesis
    by (simp add: age_step_def st')
next
  case None
  show ?thesis
  proof (cases "em = REPORT_EOF \<and> logfilesize (fits st F) \<le> record * IOBUFLEN")
    case True
    with assms None show ?thesis
      by (auto simp: ffldrc_def Let_def)
  next
    case False
    obtain st1 nb where w: "ffwhbf st F = (st1, nb)"
      by (cases "ffwhbf st F")
    have i1: "ageinit st1"
      using w by (auto simp: ffwhbf_def Let_def split: option.splits if_splits)
    show ?thesis
    proof (cases "nb < 0")
      case True
      with assms None False w have "st' = st1"
        by (auto simp: ffldrc_def Let_def)
      with age_ok_ffwhbf [OF _ w] i1 show ?thesis
        by (simp add: age_step_def)
    next
      case nonneg: False
      with assms None False w have nb: "nb < int NIOBUF"
        by (auto simp: ffldrc_def Let_def split: if_splits)
      from assms None False w nonneg nb obtain st2 e2
        where b: "(if dirty st1 (nat nb) then ffbfwt st1 (nat nb) e else Some (st1, e)) = Some (st2, e2)"
          and st': "st' = updatebuf ((fst (ffldrc_fill st2 F (nat nb) (record * IOBUFLEN) e2))
                  \<lparr>bufptr := (bufptr (fst (ffldrc_fill st2 F (nat nb) (record * IOBUFLEN) e2)))(nat nb := Some F),
                    bufrecnum := (bufrecnum (fst (ffldrc_fill st2 F (nat nb) (record * IOBUFLEN) e2)))(nat nb := record)\<rparr>)
                  F (nat nb) None"
        by (auto simp: ffldrc_def Let_def case_prod_beta split: option.splits if_splits)
      define st4 where "st4 = (fst (ffldrc_fill st2 F (nat nb) (record * IOBUFLEN) e2))
                  \<lparr>bufptr := (bufptr (fst (ffldrc_fill st2 F (nat nb) (record * IOBUFLEN) e2)))(nat nb := Some F),
                    bufrecnum := (bufrecnum (fst (ffldrc_fill st2 F (nat nb) (record * IOBUFLEN) e2)))(nat nb := record)\<rparr>"
      have v2: "age_view st2 = age_view st1"
        using b by (auto split: if_splits dest: age_view_ffbfwt)
      have v4: "age_view st4 = age_view st1"
        by (simp add: st4_def v2)
      have i': "ageinit st'"
        using i1 ageinit_view [OF v4] by (simp add: st' st4_def [symmetric])
      have "age_ok st'" if ok: "age_ok st"
      proof -
        from age_ok_ffwhbf(1) [OF ok w] have "age_ok st4"
          by (simp add: age_ok_view [OF v4])
        then show ?thesis
          unfolding st' st4_def [symmetric] using nonneg nb
          by (intro age_ok_updatebuf) auto
      qed
      with i' show ?thesis
        by (simp add: age_step_def)
    qed
  qed
qed


subsection \<open>The age invariant through the operations\<close>

lemma age_step_for_each:
  assumes "\<And>i s s'. body i s = Some s' \<Longrightarrow> age_step (fst s) (fst s')"
    and "for_each body xs s = Some s'"
  shows "age_step (fst s) (fst s')"
  using assms(2)
proof (induction xs arbitrary: s)
  case Nil
  then show ?case by simp
next
  case (Cons x xs)
  then obtain s1 where 1: "body x s = Some s1" and 2: "for_each body xs s1 = Some s'"
    by (auto split: option.splits)
  from age_step_trans [OF assms(1) [OF 1] Cons.IH [OF 2]] show ?case .
qed

lemma age_step_repeat_opt:
  assumes "\<And>s s'. f s = Some s' \<Longrightarrow> age_step (fst s) (fst s')"
    and "repeat_opt n f s = Some s'"
  shows "age_step (fst s) (fst s')"
  using assms(2)
proof (induction n arbitrary: s)
  case 0
  then show ?case by simp
next
  case (Suc n)
  then obtain s1 where 1: "f s = Some s1" and 2: "repeat_opt n f s1 = Some s'"
    by (auto split: option.splits)
  from age_step_trans [OF assms(1) [OF 1] Suc.IH [OF 2]] show ?case .
qed

lemma age_step_ffbfwt: "ffbfwt st nbuff e = Some (st', e') \<Longrightarrow> age_step st st'"
  by (rule age_step_same_view) (rule age_view_ffbfwt)

lemma age_step_ffflsh_body:
  assumes "ffflsh_body F clearbuf ii s = Some s'"
  shows "age_step (fst s) (fst s')"
proof -
  obtain st e where s: "s = (st, e)" by (cases s)
  show ?thesis
  proof (cases "bufptr st ii = Some F")
    case True
    with assms s obtain st1 e1
      where b: "(if dirty st ii then ffbfwt st ii e else Some (st, e)) = Some (st1, e1)"
        and s': "fst s' = (if clearbuf then st1\<lparr>bufptr := (bufptr st1)(ii := None)\<rparr> else st1)"
      by (auto simp: ffflsh_body_def split: option.splits)
    from b have "age_view st1 = age_view st"
      by (auto split: if_splits dest: age_view_ffbfwt)
    then have "age_view (fst s') = age_view st"
      by (simp add: s')
    then show ?thesis
      by (simp add: s age_step_same_view)
  next
    case False
    with assms s show ?thesis
      by (auto simp: ffflsh_body_def)
  qed
qed

lemma age_step_ffflsh: "ffflsh st F clearbuf e = Some (st', e') \<Longrightarrow> age_step st st'"
  unfolding ffflsh_def
  using age_step_for_each [where body = "ffflsh_body F clearbuf" and s = "(st, e)" and s' = "(st', e')"]
    age_step_ffflsh_body by auto

lemma age_step_ffmbyt:
  assumes "ffmbyt st F pos em e = Some (st', e')"
  shows "age_step st st'"
proof (cases "e \<noteq> OK \<or> pos < 0")
  case True
  with assms show ?thesis
    by (auto simp: ffmbyt_def split: if_splits)
next
  case False
  with assms obtain st1 e1
    where l: "(if pos sdiv IOBUFLEN \<noteq> bufrecnum st (nat (curbuf (fits st F)))
               then ffldrc st F (pos sdiv IOBUFLEN) em e else Some (st, e)) = Some (st1, e1)"
      and st': "st' = (if e1 = OK then upd_file st1 F (\<lambda>g. g\<lparr>bytepos := pos\<rparr>) else st1)"
    by (auto simp: ffmbyt_def split: if_splits option.splits)
  from l have 1: "age_step st st1"
    by (auto split: if_splits dest: age_step_ffldrc)
  have "age_view st' = age_view st1"
    by (simp add: st')
  from age_step_trans [OF 1 age_step_same_view [OF this]] show ?thesis .
qed

lemma age_step_ffpbyt_loop:
  "ffpbyt_loop st F ntodo bufpos nsp cptr e = Some (st', e') \<Longrightarrow> age_step st st'"
proof (induction st F ntodo bufpos nsp cptr e rule: ffpbyt_loop.induct)
  case (1 st F ntodo bufpos nsp cptr status)
  show ?case
  proof (cases "ntodo = 0")
    case True
    with "1.prems" show ?thesis
      by (simp add: ffpbyt_loop.simps)
  next
    case False
    define nwrite where "nwrite = min ntodo nsp"
    define cb where "cb = nat (curbuf (fits st F))"
    define st1 where "st1 = memcpy_in st cb bufpos cptr nwrite"
    define st2 where "st2 = upd_file st1 F (\<lambda>g. g\<lparr>bytepos := bytepos g + nwrite\<rparr>)"
    define st3 where "st3 = st2\<lparr>dirty := (dirty st2)(cb := True)\<rparr>"
    have v3: "age_view st3 = age_view st"
      by (simp add: st3_def st2_def st1_def)
    from "1.prems" False have g: "\<not> (ntodo < 0 \<or> nsp < 0 \<or> bufpos < 0
          \<or> IOBUFLEN < bufpos + min ntodo nsp \<or> int (length cptr) < ntodo
          \<or> \<not> valid_buf (curbuf (fits st F)))"
      by (subst (asm) ffpbyt_loop.simps) (auto split: if_splits)
    show ?thesis
    proof (cases "ntodo - nwrite \<noteq> 0")
      case True
      with "1.prems" False g obtain st4 e4
        where l: "ffldrc st3 F (bytepos (fits st3 F) sdiv IOBUFLEN) IGNORE_EOF status = Some (st4, e4)"
          and r: "ffpbyt_loop st4 F (ntodo - nwrite) 0 IOBUFLEN (drop (nat nwrite) cptr) e4 = Some (st', e')"
        by (subst (asm) ffpbyt_loop.simps)
           (auto simp: Let_def nwrite_def cb_def st1_def st2_def st3_def split: option.splits if_splits)
      have "age_step st4 st'"
        using "1.IH" [OF False g nwrite_def cb_def st1_def st2_def st3_def True l refl r] .
      with age_step_trans [OF age_step_same_view [OF v3] age_step_ffldrc [OF l]] age_step_trans
      show ?thesis by blast
    next
      case fin: False
      with "1.prems" False g have "st' = st3"
        by (subst (asm) ffpbyt_loop.simps)
           (auto simp: Let_def nwrite_def cb_def st1_def st2_def st3_def split: option.splits if_splits)
      with v3 show ?thesis
        by (simp add: age_step_same_view)
    qed
  qed
qed


lemma age_step_flush_affected:
  assumes "flush_affected F recstart recend ii s = Some s'"
  shows "age_step (fst s) (fst s')"
proof -
  obtain st e where s: "s = (st, e)" by (cases s)
  show ?thesis
  proof (cases "bufptr st ii = Some F \<and> recstart \<le> bufrecnum st ii \<and> bufrecnum st ii \<le> recend")
    case True
    with assms s obtain st1 e1
      where b: "(if dirty st ii then ffbfwt st ii e else Some (st, e)) = Some (st1, e1)"
        and s': "fst s' = st1\<lparr>bufptr := (bufptr st1)(ii := None)\<rparr>"
      by (auto simp: flush_affected_def split: option.splits)
    from b have "age_view st1 = age_view st"
      by (auto split: if_splits dest: age_view_ffbfwt)
    then have "age_view (fst s') = age_view st"
      by (simp add: s')
    then show ?thesis
      by (simp add: s age_step_same_view)
  next
    case False
    with assms s show ?thesis
      by (auto simp: flush_affected_def)
  qed
qed

lemma age_step_flush_dirty:
  assumes "flush_dirty F recstart recend ii s = Some s'"
  shows "age_step (fst s) (fst s')"
proof -
  obtain st e where s: "s = (st, e)" by (cases s)
  from assms s have "fst s' = st \<or> (\<exists>e'. ffbfwt st ii e = Some (fst s', e'))"
    by (cases s') (auto simp: flush_dirty_def split: if_splits)
  then show ?thesis
    by (auto simp: s dest: age_step_ffbfwt)
qed

lemma age_view_ffpbyt_tail:
  assumes "ffpbyt_tail st2 F nbuff recend filepos1 ntodo cptr e2 = Some (st', e')"
  shows "age_view st' = age_view st2"
  using assms unfolding ffpbyt_tail_def
  by (auto simp: Let_def case_prod_beta split: if_splits)

lemma age_step_ffpbyt_direct:
  assumes "ffpbyt_direct st F nbytes buffer e = Some (st', e')"
  shows "age_step st st'"
proof -
  define nbuff where "nbuff = nat (curbuf (fits st F))"
  define filepos where "filepos = bytepos (fits st F)"
  define recstart where "recstart = bufrecnum st nbuff"
  define recend where "recend = (filepos + nbytes - 1) sdiv IOBUFLEN"
  define bufpos where "bufpos = filepos - recstart * IOBUFLEN"
  define nsp where "nsp = IOBUFLEN - bufpos"
  define st1 where "st1 = (if nsp \<noteq> 0
                          then (let s = memcpy_in st nbuff bufpos buffer nsp
                                in s\<lparr>dirty := (dirty s)(nbuff := True)\<rparr>)
                          else st)"
  have v1: "age_view st1 = age_view st"
    by (simp add: st1_def Let_def)
  from assms obtain st2 e2
    where fl: "for_each (flush_affected F recstart recend) [0..<NIOBUF] (st1, e) = Some (st2, e2)"
      and t: "ffpbyt_tail st2 F nbuff recend (filepos + nsp) (nbytes - nsp) (drop (nat nsp) buffer) e2
                = Some (st', e')"
    unfolding ffpbyt_direct_def
    by (auto simp: Let_def nbuff_def [symmetric] filepos_def [symmetric]
          recstart_def [symmetric] recend_def [symmetric] bufpos_def [symmetric] nsp_def [symmetric]
          st1_def split: if_splits option.splits)
  from age_step_for_each [OF age_step_flush_affected fl] have "age_step st1 st2"
    by simp
  from age_step_trans [OF age_step_same_view [OF v1]
      age_step_trans [OF this age_step_same_view [OF age_view_ffpbyt_tail [OF t]]]]
  show ?thesis .
qed

lemma age_step_ffpbyt:
  assumes "ffpbyt st F nbytes buffer e = Some (st', e')"
  shows "age_step st st'"
  using assms
  by (auto simp: ffpbyt_def Let_def split: if_splits
        dest: age_step_ffpbyt_direct age_step_ffpbyt_loop)

lemma age_step_ffgbyt_loop:
  "ffgbyt_loop st F ntodo bufpos nsp got e = Some (st', got', e') \<Longrightarrow> age_step st st'"
proof (induction st F ntodo bufpos nsp got e rule: ffgbyt_loop.induct)
  case (1 st F ntodo bufpos nsp got status)
  show ?case
  proof (cases "ntodo = 0")
    case True
    with "1.prems" show ?thesis
      by (simp add: ffgbyt_loop.simps)
  next
    case False
    define nread where "nread = min ntodo nsp"
    define got1 where "got1 = got @ memcpy_out st (nat (curbuf (fits st F))) bufpos nread"
    define st1 where "st1 = upd_file st F (\<lambda>g. g\<lparr>bytepos := bytepos g + nread\<rparr>)"
    have v1: "age_view st1 = age_view st"
      by (simp add: st1_def)
    from "1.prems" False have g: "\<not> (ntodo < 0 \<or> nsp < 0 \<or> bufpos < 0
          \<or> IOBUFLEN < bufpos + min ntodo nsp \<or> \<not> valid_buf (curbuf (fits st F)))"
      by (subst (asm) ffgbyt_loop.simps) (auto split: if_splits)
    show ?thesis
    proof (cases "ntodo - nread \<noteq> 0")
      case True
      with "1.prems" False g obtain st2 e2
        where l: "ffldrc st1 F (bytepos (fits st1 F) sdiv IOBUFLEN) REPORT_EOF status = Some (st2, e2)"
          and r: "ffgbyt_loop st2 F (ntodo - nread) 0 IOBUFLEN got1 e2 = Some (st', got', e')"
        by (subst (asm) ffgbyt_loop.simps)
           (auto simp: Let_def nread_def got1_def st1_def split: option.splits if_splits)
      have "age_step st2 st'"
        using "1.IH" [OF False g nread_def got1_def st1_def True l refl r] .
      with age_step_trans [OF age_step_same_view [OF v1] age_step_ffldrc [OF l]] age_step_trans
      show ?thesis by blast
    next
      case fin: False
      with "1.prems" False g have "st' = st1"
        by (subst (asm) ffgbyt_loop.simps)
           (auto simp: Let_def nread_def got1_def st1_def split: option.splits if_splits)
      with v1 show ?thesis
        by (simp add: age_step_same_view)
    qed
  qed
qed

lemma age_step_ffgbyt_direct:
  assumes "ffgbyt_direct st F nbytes e = Some (st', got, e')"
  shows "age_step st st'"
proof -
  define recstart where "recstart = bufrecnum st (nat (curbuf (fits st F)))"
  define recend where "recend = (bytepos (fits st F) + nbytes - 1) sdiv IOBUFLEN"
  from assms obtain st1 e1
    where fl: "for_each (flush_dirty F recstart recend) [0..<NIOBUF] (st, e) = Some (st1, e1)"
      and v: "age_view st' = age_view st1"
    by (auto simp: ffgbyt_direct_def Let_def case_prod_beta recstart_def recend_def split: option.splits)
  from age_step_for_each [OF age_step_flush_dirty fl] have "age_step st st1"
    by simp
  from age_step_trans [OF this age_step_same_view [OF v]] show ?thesis .
qed

lemma age_step_ffgbyt:
  assumes "ffgbyt st F nbytes e = Some (st', got, e')"
  shows "age_step st st'"
  using assms
  by (auto simp: ffgbyt_def Let_def split: if_splits
        dest: age_step_ffgbyt_direct age_step_ffgbyt_loop)


lemma age_step_next_record:
  assumes "next_record F mark em s = Some s'"
  shows "age_step (fst s) (fst s')"
proof -
  obtain st e c where s: "s = (st, e, c)" by (cases s)
  show ?thesis
  proof (cases "nspace c \<le> 0")
    case True
    define st1 where "st1 = (if mark then st\<lparr>dirty := (dirty st)(bcurrent c := True)\<rparr> else st)"
    have v: "age_view st1 = age_view st"
      by (simp add: st1_def)
    from assms s True obtain e2
      where l: "ffldrc st1 F (recno c + (IOBUFLEN - nspace c) sdiv IOBUFLEN) em e = Some (fst s', e2)"
      by (auto simp: next_record_def Let_def st1_def split: option.splits if_splits)
    from age_step_trans [OF age_step_same_view [OF v] age_step_ffldrc [OF l]] show ?thesis
      by (simp add: s)
  next
    case False
    with assms s show ?thesis
      by (auto simp: next_record_def)
  qed
qed

lemma age_step_put_group:
  assumes "put_group F gsize offset s = Some s'"
  shows "age_step (fst s) (fst s')"
proof -
  obtain st e c cptr where s: "s = (st, e, c, cptr)" by (cases s)
  define nwrite where "nwrite = min gsize (nspace c)"
  define st1 where "st1 = memcpy_in st (bcurrent c) (ioptr c) cptr nwrite"
  have v1: "age_view st1 = age_view st"
    by (simp add: st1_def)
  from assms s obtain r where r: "next_record F True IGNORE_EOF r = Some (fst s', fst (snd s'), fst (snd (snd s')))"
    and m: "(nwrite < gsize \<and> (\<exists>st3 e3. ffldrc (st1\<lparr>dirty := (dirty st1)(bcurrent c := True)\<rparr>) F (recno c + 1) IGNORE_EOF e
                                  = Some (st3, e3) \<and> age_view (fst r) = age_view st3))
          \<or> (\<not> nwrite < gsize \<and> fst r = st1)"
    unfolding put_group_def
    by (auto simp: Let_def nwrite_def [symmetric] st1_def [symmetric] split: option.splits if_splits)
  from m have "age_step st1 (fst r)"
  proof
    assume "nwrite < gsize \<and> (\<exists>st3 e3. ffldrc (st1\<lparr>dirty := (dirty st1)(bcurrent c := True)\<rparr>) F (recno c + 1) IGNORE_EOF e
                                  = Some (st3, e3) \<and> age_view (fst r) = age_view st3)"
    then obtain st3 e3 where l: "ffldrc (st1\<lparr>dirty := (dirty st1)(bcurrent c := True)\<rparr>) F (recno c + 1) IGNORE_EOF e
                                  = Some (st3, e3)" and v: "age_view (fst r) = age_view st3"
      by blast
    have "age_step st1 (st1\<lparr>dirty := (dirty st1)(bcurrent c := True)\<rparr>)"
      by (rule age_step_same_view) simp
    from age_step_trans [OF this age_step_trans [OF age_step_ffldrc [OF l] age_step_same_view [OF v]]]
    show ?thesis .
  next
    assume "\<not> nwrite < gsize \<and> fst r = st1"
    then show ?thesis by simp
  qed
  from age_step_trans [OF age_step_same_view [OF v1] age_step_trans [OF this age_step_next_record [OF r]]]
  show ?thesis
    by (simp add: s)
qed

lemma age_step_put_last:
  assumes "put_last F gsize s = Some s'"
  shows "age_step (fst s) (fst s')"
proof -
  obtain st e c cptr where s: "s = (st, e, c, cptr)" by (cases s)
  define nwrite where "nwrite = min gsize (nspace c)"
  define st1 where "st1 = memcpy_in st (bcurrent c) (ioptr c) cptr nwrite"
  have v1: "age_view st1 = age_view st"
    by (simp add: st1_def)
  from assms s have m: "(nwrite < gsize \<and> (\<exists>st3 e3. ffldrc (st1\<lparr>dirty := (dirty st1)(bcurrent c := True)\<rparr>) F (recno c + 1) IGNORE_EOF e
                                  = Some (st3, e3) \<and> age_view (fst s') = age_view st3))
          \<or> (\<not> nwrite < gsize \<and> fst s' = st1)"
    unfolding put_last_def
    by (auto simp: Let_def nwrite_def [symmetric] st1_def [symmetric] split: option.splits if_splits)
  from m have "age_step st1 (fst s')"
  proof
    assume "nwrite < gsize \<and> (\<exists>st3 e3. ffldrc (st1\<lparr>dirty := (dirty st1)(bcurrent c := True)\<rparr>) F (recno c + 1) IGNORE_EOF e
                                  = Some (st3, e3) \<and> age_view (fst s') = age_view st3)"
    then obtain st3 e3 where l: "ffldrc (st1\<lparr>dirty := (dirty st1)(bcurrent c := True)\<rparr>) F (recno c + 1) IGNORE_EOF e
                                  = Some (st3, e3)" and v: "age_view (fst s') = age_view st3"
      by blast
    have "age_step st1 (st1\<lparr>dirty := (dirty st1)(bcurrent c := True)\<rparr>)"
      by (rule age_step_same_view) simp
    from age_step_trans [OF this age_step_trans [OF age_step_ffldrc [OF l] age_step_same_view [OF v]]]
    show ?thesis .
  next
    assume "\<not> nwrite < gsize \<and> fst s' = st1"
    then show ?thesis by simp
  qed
  from age_step_trans [OF age_step_same_view [OF v1] this]
  show ?thesis
    by (simp add: s)
qed

lemma age_step_ffpbytoff:
  assumes "ffpbytoff st F gsize ngroups offset buffer e = Some (st', e')"
  shows "age_step st st'"
proof (cases "e \<noteq> OK")
  case True
  with assms show ?thesis
    by (simp add: ffpbytoff_def)
next
  case False
  with assms obtain r l
    where 1: "repeat_opt (nat (ngroups - 1)) (put_group F gsize offset) (st, e, start_cursor st F, buffer) = Some r"
      and 2: "put_last F gsize r = Some l"
      and v: "age_view st' = age_view (fst l)"
    by (auto simp: ffpbytoff_def split: if_splits option.splits)
  from age_step_repeat_opt [OF age_step_put_group 1] have "age_step st (fst r)"
    by simp
  from age_step_trans [OF this age_step_trans [OF age_step_put_last [OF 2] age_step_same_view [OF v]]]
  show ?thesis .
qed


lemma age_step_get_group:
  assumes "get_group F gsize offset s = Some s'"
  shows "age_step (fst s) (fst s')"
proof -
  obtain st e c got where s: "s = (st, e, c, got)" by (cases s)
  define nread where "nread = min gsize (nspace c)"
  from assms s obtain r where r: "next_record F False REPORT_EOF r = Some (fst s', fst (snd s'), fst (snd (snd s')))"
    and m: "(nread < gsize \<and> (\<exists>e3. ffldrc st F (recno c + 1) REPORT_EOF e = Some (fst r, e3)))
          \<or> (\<not> nread < gsize \<and> fst r = st)"
    unfolding get_group_def
    by (auto simp: Let_def nread_def [symmetric] split: option.splits if_splits)
  from m have "age_step st (fst r)"
    by (auto dest: age_step_ffldrc)
  from age_step_trans [OF this age_step_next_record [OF r]]
  show ?thesis
    by (simp add: s)
qed

lemma age_step_get_last:
  assumes "get_last F gsize s = Some s'"
  shows "age_step (fst s) (fst s')"
proof -
  obtain st e c got where s: "s = (st, e, c, got)" by (cases s)
  define nread where "nread = min gsize (nspace c)"
  from assms s have m: "(nread < gsize \<and> (\<exists>e3. ffldrc st F (recno c + 1) REPORT_EOF e = Some (fst s', e3)))
          \<or> (\<not> nread < gsize \<and> fst s' = st)"
    unfolding get_last_def
    by (auto simp: Let_def nread_def [symmetric] split: option.splits if_splits)
  then show ?thesis
    by (auto simp: s dest: age_step_ffldrc)
qed

lemma age_step_ffgbytoff:
  assumes "ffgbytoff st F gsize ngroups offset e = Some (st', got, e')"
  shows "age_step st st'"
proof (cases "e \<noteq> OK")
  case True
  with assms show ?thesis
    by (simp add: ffgbytoff_def)
next
  case False
  with assms obtain r l
    where 1: "repeat_opt (nat (ngroups - 1)) (get_group F gsize offset) (st, e, start_cursor st F, []) = Some r"
      and 2: "get_last F gsize r = Some l"
      and v: "age_view st' = age_view (fst l)"
    by (auto simp: ffgbytoff_def split: if_splits option.splits)
  from age_step_repeat_opt [OF age_step_get_group 1] have "age_step st (fst r)"
    by simp
  from age_step_trans [OF this age_step_trans [OF age_step_get_last [OF 2] age_step_same_view [OF v]]]
  show ?thesis .
qed

lemma age_ok_init: "age_ok init_pool"
  by (simp add: age_ok_def init_pool_def new_file_def NIOBUF_def)

lemma age_list_init: "age_list init_pool = replicate NIOBUF 0"
  by (simp add: age_list_def init_pool_def map_replicate_const)

text \<open>
  Claim C9, as stated: the age index is a permutation of \<open>0..<NIOBUF\<close> at all times from
  process start. At process start the array is all zeros (it is initialised by the first
  call of \<^verbatim>\<open>ffwhbf\<close>), which is not a permutation.
\<close>

theorem age_perm_init_counterexample: "\<not> age_perm init_pool"
proof
  assume "age_perm init_pool"
  then have "set (age_list init_pool) = set [0..<NIOBUF]"
    unfolding age_perm_def by (rule mset_eq_setD)
  moreover have "1 \<in> set [0..<NIOBUF]"
    by (simp add: NIOBUF_def)
  ultimately have "(1::nat) \<in> set (replicate NIOBUF 0)"
    by (simp add: age_list_init)
  then show False
    by simp
qed

text \<open>
  Claim C9, amended. The invariant \<open>age_ok\<close> holds at process start and is kept by the
  victim selector, the loader, the writeback, the flush, the move and the four transfer
  routines; none of them resets \<open>ageinit\<close>, and \<^verbatim>\<open>ffwhbf\<close> sets it. So from the first call
  of \<^verbatim>\<open>ffwhbf\<close> on, the age index is a permutation of \<open>0..<NIOBUF\<close> before and after every
  operation.
\<close>

theorem age_perm_invariant:
  "age_ok init_pool
   \<and> (age_ok st \<and> ageinit st \<longrightarrow> age_perm st)
   \<and> (age_ok st \<longrightarrow> age_ok (fst (ffwhbf st F)) \<and> ageinit (fst (ffwhbf st F)))
   \<and> (\<forall>st' e'. ffldrc st F record em e = Some (st', e') \<longrightarrow> age_step st st')
   \<and> (\<forall>st' e'. ffbfwt st nbuff e = Some (st', e') \<longrightarrow> age_step st st')
   \<and> (\<forall>st' e'. ffflsh st F clearbuf e = Some (st', e') \<longrightarrow> age_step st st')
   \<and> (\<forall>st' e'. ffmbyt st F pos em e = Some (st', e') \<longrightarrow> age_step st st')
   \<and> (\<forall>st' e'. ffpbyt st F nbytes buffer e = Some (st', e') \<longrightarrow> age_step st st')
   \<and> (\<forall>st' got e'. ffgbyt st F nbytes e = Some (st', got, e') \<longrightarrow> age_step st st')
   \<and> (\<forall>st' e'. ffpbytoff st F gsize ngroups offset buffer e = Some (st', e') \<longrightarrow> age_step st st')
   \<and> (\<forall>st' got e'. ffgbytoff st F gsize ngroups offset e = Some (st', got, e') \<longrightarrow> age_step st st')"
proof (intro conjI allI impI)
  show "age_ok init_pool"
    by (rule age_ok_init)
  show "age_perm st" if "age_ok st \<and> ageinit st"
    using that by (simp add: age_ok_def)
  show "age_ok (fst (ffwhbf st F))" "ageinit (fst (ffwhbf st F))" if "age_ok st"
    using age_ok_ffwhbf(1,2) [OF that, of F "fst (ffwhbf st F)" "snd (ffwhbf st F)"] by simp_all
  show "age_step st st'" if "ffldrc st F record em e = Some (st', e')" for st' e'
    using that by (rule age_step_ffldrc)
  show "age_step st st'" if "ffbfwt st nbuff e = Some (st', e')" for st' e'
    using that by (rule age_step_ffbfwt)
  show "age_step st st'" if "ffflsh st F clearbuf e = Some (st', e')" for st' e'
    using that by (rule age_step_ffflsh)
  show "age_step st st'" if "ffmbyt st F pos em e = Some (st', e')" for st' e'
    using that by (rule age_step_ffmbyt)
  show "age_step st st'" if "ffpbyt st F nbytes buffer e = Some (st', e')" for st' e'
    using that by (rule age_step_ffpbyt)
  show "age_step st st'" if "ffgbyt st F nbytes e = Some (st', got, e')" for st' got e'
    using that by (rule age_step_ffgbyt)
  show "age_step st st'" if "ffpbytoff st F gsize ngroups offset buffer e = Some (st', e')" for st' e'
    using that by (rule age_step_ffpbytoff)
  show "age_step st st'" if "ffgbytoff st F gsize ngroups offset e = Some (st', got, e')" for st' got e'
    using that by (rule age_step_ffgbytoff)
qed


lemma find_first: "xs \<noteq> [] \<Longrightarrow> P (hd xs) \<Longrightarrow> find P xs = Some (hd xs)"
  by (cases xs) auto

lemma ffwhbf_init: "ffwhbf init_pool F = (init_pool\<lparr>ageindex := (\<lambda>ii. ii), ageinit := True\<rparr>, 0)"
proof -
  have a: "age_list (init_pool\<lparr>ageindex := (\<lambda>ii. ii), ageinit := True\<rparr>) = [0..<NIOBUF]"
    by (rule age_list_identity)
  have "find (reusable init_pool) [0..<NIOBUF] = Some (hd [0..<NIOBUF])"
    by (rule find_first) (simp_all add: NIOBUF_def reusable_def init_pool_def upt_rec)
  then have "find (reusable init_pool) [0..<NIOBUF] = Some 0"
    by (simp add: NIOBUF_def upt_rec)
  then show ?thesis
    by (simp add: ffwhbf_def Let_def a) (simp add: init_pool_def)
qed

lemma ffldrc_miss:
  assumes "scan_loaded st F record NIOBUF = None"
    and "\<not> (em = REPORT_EOF \<and> logfilesize (fits st F) \<le> record * IOBUFLEN)"
    and "ffwhbf st F = (st1, nb)" and "0 \<le> nb" and "nb < int NIOBUF"
    and "(if dirty st1 (nat nb) then ffbfwt st1 (nat nb) e else Some (st1, e)) = Some (st2, e2)"
    and "ffldrc_fill st2 F (nat nb) (record * IOBUFLEN) e2 = (st3, e3)"
  shows "ffldrc st F record em e =
           Some (updatebuf (st3\<lparr>bufptr := (bufptr st3)(nat nb := Some F),
                                bufrecnum := (bufrecnum st3)(nat nb := record)\<rparr>) F (nat nb) None, e3)"
  using assms by (auto simp: ffldrc_def Let_def)

theorem age_perm_invariant_witness:
  "age_perm (fst (ffwhbf init_pool 0))
   \<and> (\<exists>st'. ffldrc init_pool 0 0 IGNORE_EOF OK = Some (st', OK) \<and> ageinit st' \<and> age_perm st')"
proof -
  define st1 where "st1 = init_pool\<lparr>ageindex := (\<lambda>ii. ii), ageinit := True\<rparr>"
  have scan: "scan_loaded init_pool 0 0 NIOBUF = None"
    by (simp add: scan_loaded_None_iff init_pool_def)
  have w: "ffwhbf init_pool 0 = (st1, 0)"
    by (simp add: ffwhbf_init st1_def)
  have d: "(if dirty st1 (nat 0) then ffbfwt st1 (nat 0) OK else Some (st1, OK)) = Some (st1, OK)"
    by (simp add: st1_def init_pool_def)
  obtain st3 where f: "ffldrc_fill st1 0 (nat 0) (0 * IOBUFLEN) OK = (st3, OK)"
    by (simp add: ffldrc_fill_def st1_def init_pool_def new_file_def Let_def)
  define st' where "st' = updatebuf (st3\<lparr>bufptr := (bufptr st3)(nat 0 := Some 0),
                                bufrecnum := (bufrecnum st3)(nat 0 := 0)\<rparr>) 0 (nat 0) None"
  have l: "ffldrc init_pool 0 0 IGNORE_EOF OK = Some (st', OK)"
    unfolding st'_def by (rule ffldrc_miss [OF scan _ w _ _ d f]) (simp_all add: NIOBUF_def)
  have "ageinit st3"
    using ageinit_view [OF age_view_ffldrc_fill [of st1 0 "nat 0" "0 * IOBUFLEN" OK]] f
    by (simp add: st1_def)
  then have i': "ageinit st'"
    by (simp add: st'_def)
  note inv = age_perm_invariant [of init_pool 0 0 IGNORE_EOF OK]
  note inv1 = age_perm_invariant [where st = "fst (ffwhbf init_pool 0)", THEN conjunct2, THEN conjunct1]
  note inv2 = age_perm_invariant [where st = st', THEN conjunct2, THEN conjunct1]
  from inv [THEN conjunct1] have ok0: "age_ok init_pool" .
  from inv [THEN conjunct2, THEN conjunct2, THEN conjunct1] ok0
  have 1: "age_ok (fst (ffwhbf init_pool 0)) \<and> ageinit (fst (ffwhbf init_pool 0))"
    by simp
  from inv [THEN conjunct2, THEN conjunct2, THEN conjunct2, THEN conjunct1] l
  have "age_step init_pool st'"
    by simp
  with ok0 have 2: "age_ok st'"
    by (simp add: age_step_def)
  from inv1 1 have p1: "age_perm (fst (ffwhbf init_pool 0))"
    by simp
  from inv2 2 i' have "age_perm st'"
    by simp
  with p1 l i' show ?thesis
    by blast
qed


subsection \<open>The order of the writes beyond the EOF\<close>



lemma upd_file_upd_file [simp]: "upd_file (upd_file st F g) F h = upd_file st F (\<lambda>x. h (g x))"
  by (simp add: upd_file_def)

lemma upd_file_dirty: "upd_file (st\<lparr>dirty := d\<rparr>) F g = (upd_file st F g)\<lparr>dirty := d\<rparr>"
  by (simp add: upd_file_def)


lemma dev_write_ok:
  assumes "wscript d = []"
  shows "dev_write d n b OK =
     (d\<lparr>content := (\<lambda>i. if dpos d \<le> i \<and> i < dpos d + n then b (i - dpos d)
                        else if dsize d \<le> i \<and> i < dpos d then 0 else content d i),
        dsize := (if 0 < n then max (dsize d) (dpos d + n) else dsize d),
        dpos := dpos d + n\<rparr>, OK)"
  using assms by (cases d) (auto simp: dev_write_def fun_eq_iff)


text \<open>The file after \<open>k\<close> fill records are appended at its end.\<close>

definition zeros_appended :: "device \<Rightarrow> nat \<Rightarrow> device" where
  "zeros_appended d k =
     d\<lparr>content := (\<lambda>i. if dsize d \<le> i \<and> i < dsize d + int k * IOBUFLEN then 0 else content d i),
       dsize := dsize d + int k * IOBUFLEN,
       dpos := dsize d + int k * IOBUFLEN\<rparr>"

text \<open>The file after a buffer is appended at its end.\<close>

definition block_appended :: "device \<Rightarrow> (int \<Rightarrow> byte) \<Rightarrow> device" where
  "block_appended d b =
     d\<lparr>content := (\<lambda>i. if dsize d \<le> i \<and> i < dsize d + IOBUFLEN then b (i - dsize d) else content d i),
       dsize := dsize d + IOBUFLEN,
       dpos := dsize d + IOBUFLEN\<rparr>"

lemma zeros_appended_simps [simp]:
  "dsize (zeros_appended d k) = dsize d + int k * IOBUFLEN"
  "dpos (zeros_appended d k) = dsize d + int k * IOBUFLEN"
  "wscript (zeros_appended d k) = wscript d"
  "content (zeros_appended d k) i = (if dsize d \<le> i \<and> i < dsize d + int k * IOBUFLEN then 0 else content d i)"
  by (simp_all add: zeros_appended_def)

lemma block_appended_simps [simp]:
  "dsize (block_appended d b) = dsize d + IOBUFLEN"
  "dpos (block_appended d b) = dsize d + IOBUFLEN"
  "wscript (block_appended d b) = wscript d"
  "content (block_appended d b) i = (if dsize d \<le> i \<and> i < dsize d + IOBUFLEN then b (i - dsize d) else content d i)"
  by (simp_all add: block_appended_def)











text \<open>
  A file of size 0 with two modified buffers beyond the EOF: buffer 0 holds record 3 and
  buffer 1 holds record 2.
\<close>

definition two_dirty :: pool where
  "two_dirty = init_pool\<lparr>bufptr := (\<lambda>i. if i < 2 then Some 0 else None),
                         bufrecnum := (\<lambda>i. if i = 0 then 3 else if i = 1 then 2 else 0),
                         dirty := (\<lambda>i. i < 2),
                         ageindex := (\<lambda>i. i), ageinit := True,
                         fits := (fits init_pool)(0 := new_file\<lparr>curbuf := 1, logfilesize := 4 * IOBUFLEN\<rparr>)\<rparr>"

lemma lowest_rec_two_dirty: "lowest_rec two_dirty 0 0 0 = (2, 1)"
  by code_simp


subsection \<open>Write errors during the writeback\<close>


text \<open>Two pool states whose disk files have the same bytes and the same lengths.\<close>

definition disk_same :: "pool \<Rightarrow> pool \<Rightarrow> bool" where
  "disk_same st st' = (\<forall>G. content (filehandle (fits st' G)) = content (filehandle (fits st G))
                          \<and> dsize (filehandle (fits st' G)) = dsize (filehandle (fits st G)))"

lemma disk_same_refl [simp]: "disk_same st st"
  by (simp add: disk_same_def)













subsection \<open>Frame and success of the writeback\<close>

text \<open>Every write call on every disk file succeeds.\<close>

definition reliable :: "pool \<Rightarrow> bool" where
  "reliable st = (\<forall>G. wscript (filehandle (fits st G)) = [])"

text \<open>
  What a writeback for a buffer of file \<open>G\<close> may change: the disk file, the file size and
  the IO position of \<open>G\<close>, and dirty flags, which it only clears.
\<close>

definition wb_frame :: "nat \<Rightarrow> pool \<Rightarrow> pool \<Rightarrow> bool" where
  "wb_frame G st st' =
     (iobuffer st' = iobuffer st \<and> bufptr st' = bufptr st \<and> bufrecnum st' = bufrecnum st
      \<and> ageindex st' = ageindex st \<and> ageinit st' = ageinit st
      \<and> (\<forall>H. H \<noteq> G \<longrightarrow> fits st' H = fits st H)
      \<and> (\<forall>i. dirty st' i \<longrightarrow> dirty st i)
      \<and> logfilesize (fits st' G) = logfilesize (fits st G)
      \<and> bytepos (fits st' G) = bytepos (fits st G)
      \<and> curbuf (fits st' G) = curbuf (fits st G)
      \<and> hdutype (fits st' G) = hdutype (fits st G)
      \<and> rowlength (fits st' G) = rowlength (fits st G))"

lemma wb_frame_refl [simp]: "wb_frame G st st"
  by (simp add: wb_frame_def)


lemma wb_frame_dev_only: "dev_only G st st' \<Longrightarrow> wb_frame G st st'"
  by (simp add: wb_frame_def dev_onlyD)



lemma ffbfwt_within_eq:
  "ffbfwt_within st F nbuff e =
     (let filepos = bufrecnum st nbuff * IOBUFLEN;
          d0 = (if io_pos (fits st F) \<noteq> filepos then dev_seek (filehandle (fits st F)) filepos
                else filehandle (fits st F));
          w = dev_write d0 IOBUFLEN (iobuffer st nbuff) e
      in ((upd_file st F (\<lambda>g. g\<lparr>filehandle := fst w, io_pos := filepos + IOBUFLEN,
                                  filesize := (if filepos = filesize g then filesize g + IOBUFLEN
                                               else filesize g)\<rparr>))
            \<lparr>dirty := (dirty st)(nbuff := False)\<rparr>, snd w))"
  by (cases "io_pos (fits st F) \<noteq> bufrecnum st nbuff * IOBUFLEN";
      cases "bufrecnum st nbuff * IOBUFLEN = filesize (fits st F)")
     (simp_all add: ffbfwt_within_def Let_def case_prod_beta upd_file_def)






lemma reliable_dirty [simp]: "reliable (st\<lparr>dirty := d\<rparr>) = reliable st"
  by (simp add: reliable_def)






subsection \<open>Writing one block beyond the EOF\<close>

text \<open>
  The buffers of \<open>F\<close> other than \<open>v\<close> hold records that lie inside the first \<open>fs\<close> bytes of
  the file.
\<close>

definition inside :: "pool \<Rightarrow> nat \<Rightarrow> nat \<Rightarrow> int \<Rightarrow> bool" where
  "inside st F v fs =
     (\<forall>i<NIOBUF. i \<noteq> v \<longrightarrow> bufptr st i = Some F
          \<longrightarrow> 0 \<le> bufrecnum st i \<and> (bufrecnum st i + 1) * IOBUFLEN \<le> fs)"


text \<open>The file after a buffer is written over the record at \<open>p\<close>.\<close>

definition block_written :: "device \<Rightarrow> int \<Rightarrow> (int \<Rightarrow> byte) \<Rightarrow> device" where
  "block_written d p b =
     d\<lparr>content := (\<lambda>i. if p \<le> i \<and> i < p + IOBUFLEN then b (i - p) else content d i),
       dpos := p + IOBUFLEN\<rparr>"

lemma block_written_simps [simp]:
  "dsize (block_written d p b) = dsize d"
  "dpos (block_written d p b) = p + IOBUFLEN"
  "wscript (block_written d p b) = wscript d"
  "content (block_written d p b) i = (if p \<le> i \<and> i < p + IOBUFLEN then b (i - p) else content d i)"
  by (simp_all add: block_written_def)










subsection \<open>Writebacks that leave the end of a file alone\<close>









subsection \<open>The flush of a file with one buffer beyond the EOF\<close>

lemma for_each_append:
  "for_each body (xs @ ys) s =
     (case for_each body xs s of None \<Rightarrow> None | Some s' \<Rightarrow> for_each body ys s')"
  by (induction xs arbitrary: s) (auto split: option.splits)









subsection \<open>Loading a record beyond the EOF\<close>












subsection \<open>Extension of a file beyond the EOF\<close>







subsection \<open>Loading a record into the oldest buffer\<close>

lemma hd_age_list: "hd (age_list st) = ageindex st 0"
  by (simp add: age_list_def NIOBUF_def upt_rec)

lemma ffwhbf_oldest:
  assumes "ageinit st" and "reusable st (ageindex st 0)"
  shows "ffwhbf st F = (st, int (ageindex st 0))"
proof -
  have "age_list st \<noteq> []"
    by (simp add: age_list_def NIOBUF_def)
  from find_first [OF this, of "reusable st"] assms(2)
  have "find (reusable st) (age_list st) = Some (ageindex st 0)"
    by (simp add: hd_age_list)
  with assms(1) show ?thesis
    by (simp add: ffwhbf_def)
qed

lemma updatebuf_oldest:
  assumes "ageindex st 0 = n"
  shows "ageindex (updatebuf st F n None) j =
           (if j = NIOBUF - 1 then n else if Suc j < NIOBUF then ageindex st (Suc j) else ageindex st j)"
proof -
  have "find (\<lambda>i. ageindex st i = n) [0..<NIOBUF] = Some (hd [0..<NIOBUF])"
    using assms by (intro find_first) (simp_all add: NIOBUF_def upt_rec)
  then have "find (\<lambda>i. ageindex st i = n) [0..<NIOBUF] = Some 0"
    by (simp add: NIOBUF_def upt_rec)
  then show ?thesis
    by (simp add: updatebuf_age shift_ages)
qed

lemma ffldrc_oldest_fill:
  assumes scan: "scan_loaded st F rec NIOBUF = None"
    and em: "\<not> (em = REPORT_EOF \<and> logfilesize (fits st F) \<le> rec * IOBUFLEN)"
    and init: "ageinit st" and v: "ageindex st 0 = v" "v < NIOBUF"
    and re: "reusable st v" and cl: "\<not> dirty st v"
    and eof: "filesize (fits st F) \<le> rec * IOBUFLEN"
  shows "ffldrc st F rec em OK =
     Some (updatebuf ((upd_file (memset_buffer st v (fill_value (hdutype (fits st F)))) F
                         (\<lambda>g. g\<lparr>logfilesize := max (logfilesize g) (rec * IOBUFLEN + IOBUFLEN)\<rparr>))
                       \<lparr>dirty := (dirty st)(v := True), bufptr := (bufptr st)(v := Some F),
                         bufrecnum := (bufrecnum st)(v := rec)\<rparr>) F v None, OK)"
proof -
  have w: "ffwhbf st F = (st, int v)"
    using ffwhbf_oldest [OF init, of F] re v by simp
  have d: "(if dirty st (nat (int v)) then ffbfwt st (nat (int v)) OK else Some (st, OK)) = Some (st, OK)"
    using cl by simp
  have f: "ffldrc_fill st F (nat (int v)) (rec * IOBUFLEN) OK =
      ((upd_file (memset_buffer st v (fill_value (hdutype (fits st F)))) F
                         (\<lambda>g. g\<lparr>logfilesize := max (logfilesize g) (rec * IOBUFLEN + IOBUFLEN)\<rparr>))
                       \<lparr>dirty := (dirty st)(v := True)\<rparr>, OK)"
    using eof by (simp add: ffldrc_fill_def Let_def memset_buffer_def)
  from ffldrc_miss [OF scan em w _ _ d f] v(2) show ?thesis
    by (simp add: memset_buffer_def)
qed

lemma ffldrc_oldest_read:
  assumes scan: "scan_loaded st F rec NIOBUF = None"
    and em: "\<not> (em = REPORT_EOF \<and> logfilesize (fits st F) \<le> rec * IOBUFLEN)"
    and init: "ageinit st" and v: "ageindex st 0 = v" "v < NIOBUF"
    and re: "reusable st v" and cl: "\<not> dirty st v"
    and inside: "rec * IOBUFLEN < filesize (fits st F)" "0 \<le> rec * IOBUFLEN"
      "rec * IOBUFLEN + IOBUFLEN \<le> dsize (filehandle (fits st F))"
      "dpos (filehandle (fits st F)) = io_pos (fits st F)"
  shows "ffldrc st F rec em OK =
     Some (updatebuf ((upd_file st F
                         (\<lambda>g. g\<lparr>filehandle := (filehandle (fits st F))\<lparr>dpos := rec * IOBUFLEN + IOBUFLEN\<rparr>,
                                io_pos := rec * IOBUFLEN + IOBUFLEN\<rparr>))
                       \<lparr>iobuffer := (iobuffer st)(v := (\<lambda>i. if 0 \<le> i \<and> i < IOBUFLEN
                             then content (filehandle (fits st F)) (rec * IOBUFLEN + i)
                             else iobuffer st v i)),
                         bufptr := (bufptr st)(v := Some F),
                         bufrecnum := (bufrecnum st)(v := rec)\<rparr>) F v None, OK)"
proof -
  have w: "ffwhbf st F = (st, int v)"
    using ffwhbf_oldest [OF init, of F] re v by simp
  have d: "(if dirty st (nat (int v)) then ffbfwt st (nat (int v)) OK else Some (st, OK)) = Some (st, OK)"
    using cl by simp
  have f: "ffldrc_fill st F (nat (int v)) (rec * IOBUFLEN) OK =
      ((upd_file st F
                         (\<lambda>g. g\<lparr>filehandle := (filehandle (fits st F))\<lparr>dpos := rec * IOBUFLEN + IOBUFLEN\<rparr>,
                                io_pos := rec * IOBUFLEN + IOBUFLEN\<rparr>))
                       \<lparr>iobuffer := (iobuffer st)(v := (\<lambda>i. if 0 \<le> i \<and> i < IOBUFLEN
                             then content (filehandle (fits st F)) (rec * IOBUFLEN + i)
                             else iobuffer st v i))\<rparr>, OK)"
    using inside
    by (cases "io_pos (fits st F) \<noteq> rec * IOBUFLEN")
       (simp_all add: ffldrc_fill_def Let_def ffread_def dev_read_def ffseek_def dev_seek_def
          set_buffer_def upd_file_def cong: if_cong)
  from ffldrc_miss [OF scan em w _ _ d f] v(2) show ?thesis
    by simp
qed


lemma for_each_skip:
  assumes "\<forall>i\<in>set xs. bufptr st i \<noteq> Some F"
  shows "for_each (ffflsh_body F c) xs (st, e) = Some (st, e)"
  using assms by (induction xs) (simp_all add: ffflsh_body_def)

lemma ffflsh_single:
  assumes v: "v < NIOBUF" and others: "\<forall>i<NIOBUF. i \<noteq> v \<longrightarrow> bufptr st i \<noteq> Some F"
    and own: "bufptr st v = Some F" and d: "dirty st v"
    and wb: "ffbfwt st v e = Some (st1, e1)" and bp: "bufptr st1 = bufptr st"
  shows "ffflsh st F True e = Some (st1\<lparr>bufptr := (bufptr st1)(v := None)\<rparr>, e1)"
proof -
  have split: "[0..<NIOBUF] = [0..<v] @ v # [Suc v..<NIOBUF]"
    using v upt_add_eq_append [of 0 v "NIOBUF - v"] by (simp add: upt_conv_Cons)
  have 1: "for_each (ffflsh_body F True) [0..<v] (st, e) = Some (st, e)"
    using others v by (intro for_each_skip) simp
  have 2: "ffflsh_body F True v (st, e) = Some (st1\<lparr>bufptr := (bufptr st1)(v := None)\<rparr>, e1)"
    using own d wb by (simp add: ffflsh_body_def)
  have 3: "for_each (ffflsh_body F True) [Suc v..<NIOBUF] (st1\<lparr>bufptr := (bufptr st1)(v := None)\<rparr>, e1)
             = Some (st1\<lparr>bufptr := (bufptr st1)(v := None)\<rparr>, e1)"
    using others bp by (intro for_each_skip) simp
  show ?thesis
    by (simp add: ffflsh_def split for_each_append 1 2 3)
qed

subsection \<open>A write after a flush that disassociated the buffers\<close>

text \<open>
  The pool after a new file 0 was created on a fresh pool (\<^verbatim>\<open>ffldrc\<close> of record 0), the
  three bytes \<open>ABC\<close> were written at position 0 and the file was flushed with \<^verbatim>\<open>clearbuf\<close>:
  the record is on disk, no buffer has an owner, buffer 0 still carries record number 0
  and is still the current buffer of the file.
\<close>

definition flushed_pool :: pool where
  "flushed_pool =
     \<lparr>iobuffer = (\<lambda>n i. if n = 0 \<and> 0 \<le> i \<and> i < 3 then [65, 66, 67] ! nat i else 0),
      bufptr = (\<lambda>_. None), bufrecnum = (\<lambda>_. 0), dirty = (\<lambda>_. False),
      ageindex = (\<lambda>i. if Suc i < NIOBUF then Suc i else if Suc i = NIOBUF then 0 else i),
      ageinit = True,
      fits = (\<lambda>G. if G = 0
                   then \<lparr>filehandle = \<lparr>content = (\<lambda>i. if 0 \<le> i \<and> i < 3 then [65, 66, 67] ! nat i else 0),
                                        dsize = 2880, dpos = 2880, wscript = []\<rparr>,
                         filesize = 2880, logfilesize = 2880, bytepos = 3, io_pos = 2880,
                         curbuf = 0, hdutype = IMAGE_HDU, rowlength = 0\<rparr>
                   else new_file)\<rparr>"

text \<open>
  The calls of the round trip: move to \<open>pos\<close>, write the bytes, flush the file with
  \<^verbatim>\<open>clearbuf\<close>, move to \<open>pos\<close> again and read as many bytes.
\<close>

definition roundtrip :: "pool \<Rightarrow> nat \<Rightarrow> int \<Rightarrow> byte list \<Rightarrow> (pool \<times> byte list \<times> status) option" where
  "roundtrip st F pos bytes =
     then_do (then_do (then_do (then_do (ffmbyt st F pos IGNORE_EOF OK)
       (\<lambda>s e. ffpbyt s F (int (length bytes)) bytes e))
       (\<lambda>s e. ffflsh s F True e))
       (\<lambda>s e. ffmbyt s F pos REPORT_EOF e))
       (\<lambda>s e. ffgbyt s F (int (length bytes)) e)"

lemma memcpy_in_simps [simp]:
  "bufptr (memcpy_in st n off src len) = bufptr st"
  "bufrecnum (memcpy_in st n off src len) = bufrecnum st"
  "dirty (memcpy_in st n off src len) = dirty st"
  "ageindex (memcpy_in st n off src len) = ageindex st"
  "ageinit (memcpy_in st n off src len) = ageinit st"
  "fits (memcpy_in st n off src len) = fits st"
  by (simp_all add: memcpy_in_def)

lemma ffpbyt_loop_cross:
  assumes "curbuf (fits st F) = int cb" "cb < NIOBUF" "0 \<le> bufpos" "0 \<le> nsp" "nsp < ntodo"
    "bufpos + nsp \<le> IOBUFLEN" "ntodo \<le> int (length cptr)"
    and "s2 = (upd_file (memcpy_in st cb bufpos cptr nsp) F
                 (\<lambda>g. g\<lparr>bytepos := bytepos g + nsp\<rparr>))\<lparr>dirty := (dirty st)(cb := True)\<rparr>"
    and "ffldrc s2 F (bytepos (fits s2 F) sdiv IOBUFLEN) IGNORE_EOF status = Some (st4, status4)"
  shows "ffpbyt_loop st F ntodo bufpos nsp cptr status =
           ffpbyt_loop st4 F (ntodo - nsp) 0 IOBUFLEN (drop (nat nsp) cptr) status4"
  using assms(1-7) assms(9) [unfolded assms(8)]
  by (subst ffpbyt_loop.simps) (simp add: Let_def min_def valid_buf_def)

lemma ffpbyt_loop_last:
  assumes "curbuf (fits st F) = int cb" "cb < NIOBUF" "0 \<le> bufpos" "0 < ntodo" "ntodo \<le> nsp"
    "bufpos + ntodo \<le> IOBUFLEN" "ntodo \<le> int (length cptr)"
  shows "ffpbyt_loop st F ntodo bufpos nsp cptr status =
           Some ((upd_file (memcpy_in st cb bufpos cptr ntodo) F
                 (\<lambda>g. g\<lparr>bytepos := bytepos g + ntodo\<rparr>))\<lparr>dirty := (dirty st)(cb := True)\<rparr>,
                 status)"
  using assms by (subst ffpbyt_loop.simps) (simp add: Let_def min_def valid_buf_def)

lemma ffgbyt_loop_cross:
  assumes "curbuf (fits st F) = int cb" "cb < NIOBUF" "0 \<le> bufpos" "0 \<le> nsp" "nsp < ntodo"
    "bufpos + nsp \<le> IOBUFLEN"
    and "s1 = upd_file st F (\<lambda>g. g\<lparr>bytepos := bytepos g + nsp\<rparr>)"
    and "ffldrc s1 F (bytepos (fits s1 F) sdiv IOBUFLEN) REPORT_EOF status = Some (st2, status2)"
  shows "ffgbyt_loop st F ntodo bufpos nsp got status =
           ffgbyt_loop st2 F (ntodo - nsp) 0 IOBUFLEN (got @ memcpy_out st cb bufpos nsp) status2"
  using assms(1-6) assms(8) [unfolded assms(7)]
  by (subst ffgbyt_loop.simps) (simp add: Let_def min_def valid_buf_def)

lemma ffgbyt_loop_last:
  assumes "curbuf (fits st F) = int cb" "cb < NIOBUF" "0 \<le> bufpos" "0 < ntodo" "ntodo \<le> nsp"
    "bufpos + ntodo \<le> IOBUFLEN"
  shows "ffgbyt_loop st F ntodo bufpos nsp got status =
           Some (upd_file st F (\<lambda>g. g\<lparr>bytepos := bytepos g + ntodo\<rparr>),
                 got @ memcpy_out st cb bufpos ntodo, status)"
  using assms by (subst ffgbyt_loop.simps) (simp add: Let_def min_def valid_buf_def)

lemma memcpy_out_1 [simp]: "memcpy_out st n off 1 = [iobuffer st n off]"
  by (simp add: memcpy_out_def)

lemma sdiv_2879 [simp]: "(2879 :: int) sdiv IOBUFLEN = 0" "(2880 :: int) sdiv IOBUFLEN = 1"
  by (simp_all add: sdiv_nonneg IOBUFLEN_def)

lemma stale_write:
  shows "\<exists>s. then_do (ffmbyt flushed_pool 0 2879 IGNORE_EOF OK) (\<lambda>s e. ffpbyt s 0 2 [88, 89] e) = Some (s, OK)
           \<and> bufptr s = (\<lambda>_. None)(1 := Some 0) \<and> bufrecnum s = (\<lambda>_. 0)(1 := 1)
           \<and> dirty s = (\<lambda>_. False)(0 := True, 1 := True)
           \<and> iobuffer s 1 0 = 89 \<and> iobuffer s 0 2879 = 88
           \<and> ageinit s \<and> ageindex s 0 = 2 \<and> ageindex s 1 = 3 \<and> ageindex s 39 = 1
           \<and> fits s 0 = (fits flushed_pool 0)\<lparr>logfilesize := 5760, bytepos := 2881, curbuf := 1\<rparr>"
proof -
  define s1 where "s1 = upd_file flushed_pool 0 (\<lambda>g. g\<lparr>bytepos := 2879\<rparr>)"
  have m1: "ffmbyt flushed_pool 0 2879 IGNORE_EOF OK = Some (s1, OK)"
    by (simp add: ffmbyt_def valid_buf_def s1_def) (simp add: flushed_pool_def NIOBUF_def)
  define s2 where "s2 = (upd_file (memcpy_in s1 0 2879 [88, 89] 1) 0
                            (\<lambda>g. g\<lparr>bytepos := bytepos g + 1\<rparr>))\<lparr>dirty := (dirty s1)(0 := True)\<rparr>"
  have f2: "bufptr s2 = (\<lambda>_. None)" "bufrecnum s2 = (\<lambda>_. 0)" "dirty s2 = (\<lambda>_. False)(0 := True)"
    "ageinit s2" "ageindex s2 0 = 1" "ageindex s2 1 = 2" "ageindex s2 2 = 3" "ageindex s2 39 = 0"
    "fits s2 0 = (fits flushed_pool 0)\<lparr>bytepos := 2880\<rparr>"
    "iobuffer s2 0 2879 = 88"
    by (simp_all add: s2_def s1_def memcpy_in_def upd_file_def flushed_pool_def NIOBUF_def)
  define s3 where "s3 = updatebuf ((upd_file (memset_buffer s2 1 (fill_value (hdutype (fits s2 0)))) 0
                         (\<lambda>g. g\<lparr>logfilesize := max (logfilesize g) (1 * IOBUFLEN + IOBUFLEN)\<rparr>))
                       \<lparr>dirty := (dirty s2)(1 := True), bufptr := (bufptr s2)(1 := Some 0),
                         bufrecnum := (bufrecnum s2)(1 := 1)\<rparr>) 0 1 None"
  have l: "ffldrc s2 0 1 IGNORE_EOF OK = Some (s3, OK)"
    unfolding s3_def
    by (rule ffldrc_oldest_fill)
       (simp_all add: scan_loaded_None_iff f2 reusable_def NIOBUF_def, simp_all add: flushed_pool_def IOBUFLEN_def)
  have f3: "bufptr s3 = (\<lambda>_. None)(1 := Some 0)" "bufrecnum s3 = (\<lambda>_. 0)(1 := 1)"
    "dirty s3 = (\<lambda>_. False)(0 := True, 1 := True)" "ageinit s3"
    "fits s3 0 = (fits flushed_pool 0)\<lparr>logfilesize := 5760, bytepos := 2880, curbuf := 1\<rparr>"
    "iobuffer s3 0 2879 = 88"
    by (simp_all add: s3_def f2 memset_buffer_def upd_file_def) (simp_all add: flushed_pool_def IOBUFLEN_def)
  have a3: "ageindex s3 0 = 2" "ageindex s3 1 = 3" "ageindex s3 39 = 1"
    by (simp_all add: s3_def updatebuf_oldest f2 memset_buffer_def NIOBUF_def)
       (simp_all add: s2_def s1_def memcpy_in_def flushed_pool_def NIOBUF_def)
  define s4 where "s4 = (upd_file (memcpy_in s3 1 0 [89] 1) 0
                            (\<lambda>g. g\<lparr>bytepos := bytepos g + 1\<rparr>))\<lparr>dirty := (dirty s3)(1 := True)\<rparr>"
  have l2: "ffpbyt_loop s3 0 1 0 IOBUFLEN [89] OK = Some (s4, OK)"
    unfolding s4_def
    by (rule ffpbyt_loop_last) (simp_all add: f3 NIOBUF_def IOBUFLEN_def)
  have f1: "curbuf (fits s1 0) = int 0"
    by (simp add: s1_def flushed_pool_def)
  have l': "ffldrc s2 0 (bytepos (fits s2 0) sdiv IOBUFLEN) IGNORE_EOF OK = Some (s3, OK)"
    by (simp add: f2 l)
  have "ffpbyt_loop s1 0 2 2879 1 [88, 89] OK =
          ffpbyt_loop s3 0 (2 - 1) 0 IOBUFLEN (drop (nat 1) [88, 89]) OK"
    by (rule ffpbyt_loop_cross [OF f1 _ _ _ _ _ _ s2_def l']) (simp_all add: NIOBUF_def IOBUFLEN_def)
  with l2 have l1: "ffpbyt_loop s1 0 2 2879 1 [88, 89] OK = Some (s4, OK)"
    by simp
  have p: "ffpbyt s1 0 2 [88, 89] OK = Some (s4, OK)"
    using l1 by (simp add: ffpbyt_def valid_buf_def MINDIRECT_def Let_def s1_def)
       (simp add: flushed_pool_def NIOBUF_def IOBUFLEN_def)
  have "then_do (ffmbyt flushed_pool 0 2879 IGNORE_EOF OK) (\<lambda>s e. ffpbyt s 0 2 [88, 89] e) = Some (s4, OK)"
    by (simp add: then_do_def m1 p)
  moreover have "bufptr s4 = (\<lambda>_. None)(1 := Some 0)" "bufrecnum s4 = (\<lambda>_. 0)(1 := 1)"
    "dirty s4 = (\<lambda>_. False)(0 := True, 1 := True)" "iobuffer s4 1 0 = 89" "iobuffer s4 0 2879 = 88"
    "ageinit s4" "ageindex s4 0 = 2" "ageindex s4 1 = 3" "ageindex s4 39 = 1"
    "fits s4 0 = (fits flushed_pool 0)\<lparr>logfilesize := 5760, bytepos := 2881, curbuf := 1\<rparr>"
    using f3 a3 by (simp_all add: s4_def memcpy_in_def upd_file_def fun_eq_iff)
  ultimately show ?thesis
    by blast
qed


lemma ffbfwt_at_eof:
  assumes bp: "bufptr st n = Some F" and r: "bufrecnum st n * IOBUFLEN = filesize (fits st F)"
    and pos: "io_pos (fits st F) = filesize (fits st F)"
      "dpos (filehandle (fits st F)) = filesize (fits st F)"
      "dsize (filehandle (fits st F)) = filesize (fits st F)"
    and w: "wscript (filehandle (fits st F)) = []"
  shows "ffbfwt st n OK =
     Some ((upd_file st F (\<lambda>g. g\<lparr>filehandle := block_appended (filehandle (fits st F)) (iobuffer st n),
                                   io_pos := filesize (fits st F) + IOBUFLEN,
                                   filesize := filesize (fits st F) + IOBUFLEN\<rparr>))
             \<lparr>dirty := (dirty st)(n := False)\<rparr>, OK)"
proof -
  have "dev_write (filehandle (fits st F)) IOBUFLEN (iobuffer st n) OK =
          (block_appended (filehandle (fits st F)) (iobuffer st n), OK)"
    using w pos IOBUFLEN_pos
    by (cases "filehandle (fits st F)") (simp add: dev_write_ok block_appended_def fun_eq_iff max_def)
  then show ?thesis
    using bp r pos by (simp add: ffbfwt_def ffbfwt_within_eq Let_def upd_file_def)
qed


text \<open>
  The calls that lead to \<open>flushed_pool\<close> from process start: the first record of the new
  file 0 is loaded, the bytes \<open>ABC\<close> are written at position 0, and the file is flushed
  with \<^verbatim>\<open>clearbuf\<close>.
\<close>

definition first_flush :: "(pool \<times> status) option" where
  "first_flush =
     then_do (then_do (then_do (ffldrc init_pool 0 0 IGNORE_EOF OK)
       (\<lambda>s e. ffmbyt s 0 0 IGNORE_EOF e))
       (\<lambda>s e. ffpbyt s 0 3 [65, 66, 67] e))
       (\<lambda>s e. ffflsh s 0 True e)"

lemma first_flush_reached: "first_flush = Some (flushed_pool, OK)"
proof -
  define s0 where "s0 = init_pool\<lparr>ageindex := (\<lambda>ii. ii), ageinit := True\<rparr>"
  have scan: "scan_loaded init_pool 0 0 NIOBUF = None"
    by (simp add: scan_loaded_None_iff init_pool_def)
  have w: "ffwhbf init_pool 0 = (s0, 0)"
    by (simp add: ffwhbf_init s0_def)
  have d: "(if dirty s0 (nat 0) then ffbfwt s0 (nat 0) OK else Some (s0, OK)) = Some (s0, OK)"
    by (simp add: s0_def init_pool_def)
  define s1 where "s1 = (upd_file (memset_buffer s0 0 0) 0 (\<lambda>g. g\<lparr>logfilesize := 2880\<rparr>))
                          \<lparr>dirty := (dirty s0)(0 := True)\<rparr>"
  have f: "ffldrc_fill s0 0 (nat 0) (0 * IOBUFLEN) OK = (s1, OK)"
    by (simp add: ffldrc_fill_def s1_def s0_def init_pool_def new_file_def Let_def fill_value_def
          IOBUFLEN_def memset_buffer_def)
  define s2 where "s2 = updatebuf (s1\<lparr>bufptr := (bufptr s1)(nat 0 := Some 0),
                                bufrecnum := (bufrecnum s1)(nat 0 := 0)\<rparr>) 0 (nat 0) None"
  have l: "ffldrc init_pool 0 0 IGNORE_EOF OK = Some (s2, OK)"
    unfolding s2_def by (rule ffldrc_miss [OF scan _ w _ _ d f]) (simp_all add: NIOBUF_def)
  have a2: "ageindex s2 = (\<lambda>i. if Suc i < NIOBUF then Suc i else if Suc i = NIOBUF then 0 else i)"
    by (simp add: s2_def fun_eq_iff updatebuf_oldest s1_def s0_def memset_buffer_def) (simp add: NIOBUF_def)
  have f2: "bufptr s2 = (\<lambda>_. None)(0 := Some 0)" "bufrecnum s2 = (\<lambda>_. 0)" "dirty s2 = (\<lambda>_. False)(0 := True)"
    "ageinit s2" "iobuffer s2 = (\<lambda>_ _. 0)"
    "fits s2 = (\<lambda>G. if G = 0 then new_file\<lparr>logfilesize := 2880, curbuf := 0\<rparr> else new_file)"
    by (simp_all add: s2_def s1_def s0_def init_pool_def memset_buffer_def upd_file_def fun_eq_iff)
  define s3 where "s3 = upd_file s2 0 (\<lambda>g. g\<lparr>bytepos := 0\<rparr>)"
  have m: "ffmbyt s2 0 0 IGNORE_EOF OK = Some (s3, OK)"
    by (simp add: ffmbyt_def valid_buf_def f2 NIOBUF_def s3_def sdiv_nonneg)
  define s4 where "s4 = (upd_file (memcpy_in s3 0 0 [65, 66, 67] 3) 0
                 (\<lambda>g. g\<lparr>bytepos := bytepos g + 3\<rparr>))\<lparr>dirty := (dirty s3)(0 := True)\<rparr>"
  have c3: "curbuf (fits s3 0) = int 0"
    by (simp add: s3_def f2)
  have "ffpbyt_loop s3 0 3 0 IOBUFLEN [65, 66, 67] OK = Some (s4, OK)"
    unfolding s4_def by (rule ffpbyt_loop_last [OF c3]) (simp_all add: NIOBUF_def IOBUFLEN_def)
  then have p: "ffpbyt s3 0 3 [65, 66, 67] OK = Some (s4, OK)"
    by (simp add: ffpbyt_def valid_buf_def c3 NIOBUF_def MINDIRECT_def Let_def) (simp add: s3_def f2 new_file_def)
  have f4: "bufptr s4 = (\<lambda>_. None)(0 := Some 0)" "bufrecnum s4 = (\<lambda>_. 0)" "dirty s4 = (\<lambda>_. False)(0 := True)"
    "ageinit s4" "ageindex s4 = ageindex s2"
    "iobuffer s4 = (\<lambda>n i. if n = 0 \<and> 0 \<le> i \<and> i < 3 then [65, 66, 67] ! nat i else 0)"
    "fits s4 = (\<lambda>G. if G = 0 then new_file\<lparr>logfilesize := 2880, curbuf := 0, bytepos := 3\<rparr> else new_file)"
    using f2 by (simp_all add: s4_def s3_def memcpy_in_def upd_file_def fun_eq_iff new_file_def)
  define t where "t = (upd_file s4 0 (\<lambda>g. g\<lparr>filehandle := block_appended (filehandle (fits s4 0)) (iobuffer s4 0),
                                   io_pos := filesize (fits s4 0) + IOBUFLEN,
                                   filesize := filesize (fits s4 0) + IOBUFLEN\<rparr>))
             \<lparr>dirty := (dirty s4)(0 := False)\<rparr>"
  have wb: "ffbfwt s4 0 OK = Some (t, OK)"
    unfolding t_def by (rule ffbfwt_at_eof) (simp_all add: f4 new_file_def)
  have fl: "ffflsh s4 0 True OK = Some (t\<lparr>bufptr := (bufptr t)(0 := None)\<rparr>, OK)"
    by (rule ffflsh_single [OF _ _ _ _ wb]) (simp_all add: f4 NIOBUF_def t_def)
  have "t\<lparr>bufptr := (bufptr t)(0 := None)\<rparr> = flushed_pool"
    using f4 a2
    by (simp add: t_def flushed_pool_def upd_file_def block_appended_def new_file_def fun_eq_iff
          IOBUFLEN_def)
  with fl have "ffflsh s4 0 True OK = Some (flushed_pool, OK)"
    by simp
  then show ?thesis
    by (simp add: first_flush_def then_do_def l m p)
qed

text \<open>
  Claim C1, that bytes written, flushed and read again at the same position come back
  unchanged, on \<open>flushed_pool\<close>, the pool that the calls of \<open>first_flush\<close> lead to: the
  bytes \<open>XY\<close> written at position 2879 are read back as \<open>0x00 Y\<close>. \<^verbatim>\<open>ffmbyt\<close> takes buffer
  0 for the current record although the buffer has no owner, the first byte goes into it,
  \<^verbatim>\<open>ffflsh\<close> does not write it, and the read loads record 0 from disk.
\<close>

theorem roundtrip_after_flush:
  "first_flush = Some (flushed_pool, OK)
   \<and> map_option snd (roundtrip flushed_pool 0 2879 [88, 89]) = Some ([0, 89], OK)"
proof -
  from stale_write obtain s where
    w: "then_do (ffmbyt flushed_pool 0 2879 IGNORE_EOF OK) (\<lambda>s e. ffpbyt s 0 2 [88, 89] e) = Some (s, OK)"
    and fs: "bufptr s = (\<lambda>_. None)(1 := Some 0)" "bufrecnum s = (\<lambda>_. 0)(1 := 1)"
      "dirty s = (\<lambda>_. False)(0 := True, 1 := True)" "iobuffer s 1 0 = 89" "iobuffer s 0 2879 = 88"
      "ageinit s" "ageindex s 0 = 2" "ageindex s 1 = 3" "ageindex s 39 = 1"
      "fits s 0 = (fits flushed_pool 0)\<lparr>logfilesize := 5760, bytepos := 2881, curbuf := 1\<rparr>"
    by blast
  have fl0: "filesize (fits s 0) = 2880" "io_pos (fits s 0) = 2880" "dpos (filehandle (fits s 0)) = 2880"
    "dsize (filehandle (fits s 0)) = 2880" "wscript (filehandle (fits s 0)) = []"
    "content (filehandle (fits s 0)) 2879 = 0"
    by (simp_all add: fs flushed_pool_def)
  define t where "t = (upd_file s 0 (\<lambda>g. g\<lparr>filehandle := block_appended (filehandle (fits s 0)) (iobuffer s 1),
                                   io_pos := filesize (fits s 0) + IOBUFLEN,
                                   filesize := filesize (fits s 0) + IOBUFLEN\<rparr>))
             \<lparr>dirty := (dirty s)(1 := False)\<rparr>"
  have wb: "ffbfwt s 1 OK = Some (t, OK)"
    unfolding t_def by (rule ffbfwt_at_eof) (simp_all add: fs(1,2) fl0 IOBUFLEN_def)
  define s5 where "s5 = t\<lparr>bufptr := (bufptr t)(1 := None)\<rparr>"
  have fl: "ffflsh s 0 True OK = Some (s5, OK)"
    unfolding s5_def by (rule ffflsh_single [OF _ _ _ _ wb]) (simp_all add: fs NIOBUF_def t_def)
  have f5: "bufptr s5 = (\<lambda>_. None)" "bufrecnum s5 = (\<lambda>_. 0)(1 := 1)" "dirty s5 = (\<lambda>_. False)(0 := True)"
    "ageinit s5" "ageindex s5 0 = 2" "ageindex s5 1 = 3"
    "curbuf (fits s5 0) = 1" "logfilesize (fits s5 0) = 5760" "filesize (fits s5 0) = 5760"
    "io_pos (fits s5 0) = 5760" "dpos (filehandle (fits s5 0)) = 5760"
    "dsize (filehandle (fits s5 0)) = 5760"
    "content (filehandle (fits s5 0)) 2879 = 0" "content (filehandle (fits s5 0)) 2880 = 89"
    using fs fl0 by (simp_all add: s5_def t_def fun_eq_iff IOBUFLEN_def)
  define s6 where "s6 = updatebuf ((upd_file s5 0
                         (\<lambda>g. g\<lparr>filehandle := (filehandle (fits s5 0))\<lparr>dpos := 0 * IOBUFLEN + IOBUFLEN\<rparr>,
                                io_pos := 0 * IOBUFLEN + IOBUFLEN\<rparr>))
                       \<lparr>iobuffer := (iobuffer s5)(2 := (\<lambda>i. if 0 \<le> i \<and> i < IOBUFLEN
                             then content (filehandle (fits s5 0)) (0 * IOBUFLEN + i)
                             else iobuffer s5 2 i)),
                         bufptr := (bufptr s5)(2 := Some 0),
                         bufrecnum := (bufrecnum s5)(2 := 0)\<rparr>) 0 2 None"
  have l6: "ffldrc s5 0 0 REPORT_EOF OK = Some (s6, OK)"
    unfolding s6_def
    by (rule ffldrc_oldest_read)
       (simp_all add: scan_loaded_None_iff f5 reusable_def NIOBUF_def IOBUFLEN_def)
  define s7 where "s7 = upd_file s6 0 (\<lambda>g. g\<lparr>bytepos := 2879\<rparr>)"
  have m2: "ffmbyt s5 0 2879 REPORT_EOF OK = Some (s7, OK)"
    by (simp add: ffmbyt_def valid_buf_def f5 NIOBUF_def l6 s7_def)
  have f7: "bufptr s7 = (\<lambda>_. None)(2 := Some 0)" "bufrecnum s7 = (\<lambda>_. 0)(1 := 1, 2 := 0)"
    "dirty s7 = (\<lambda>_. False)(0 := True)" "ageinit s7"
    "curbuf (fits s7 0) = int 2" "logfilesize (fits s7 0) = 5760" "filesize (fits s7 0) = 5760"
    "io_pos (fits s7 0) = 2880" "dpos (filehandle (fits s7 0)) = 2880"
    "dsize (filehandle (fits s7 0)) = 5760" "bytepos (fits s7 0) = 2879"
    "content (filehandle (fits s7 0)) 2880 = 89" "iobuffer s7 2 2879 = 0"
    using f5 by (simp_all add: s7_def s6_def fun_eq_iff IOBUFLEN_def)
  have a7: "ageindex s7 0 = 3"
    using f5 by (simp add: s7_def s6_def updatebuf_oldest NIOBUF_def)
  define s8 where "s8 = upd_file s7 0 (\<lambda>g. g\<lparr>bytepos := bytepos g + 1\<rparr>)"
  define s9 where "s9 = updatebuf ((upd_file s8 0
                         (\<lambda>g. g\<lparr>filehandle := (filehandle (fits s8 0))\<lparr>dpos := 1 * IOBUFLEN + IOBUFLEN\<rparr>,
                                io_pos := 1 * IOBUFLEN + IOBUFLEN\<rparr>))
                       \<lparr>iobuffer := (iobuffer s8)(3 := (\<lambda>i. if 0 \<le> i \<and> i < IOBUFLEN
                             then content (filehandle (fits s8 0)) (1 * IOBUFLEN + i)
                             else iobuffer s8 3 i)),
                         bufptr := (bufptr s8)(3 := Some 0),
                         bufrecnum := (bufrecnum s8)(3 := 1)\<rparr>) 0 3 None"
  have l9: "ffldrc s8 0 1 REPORT_EOF OK = Some (s9, OK)"
    unfolding s9_def using f7 a7
    by (intro ffldrc_oldest_read)
       (simp_all add: scan_loaded_None_iff reusable_def NIOBUF_def IOBUFLEN_def s8_def)
  have l9': "ffldrc s8 0 (bytepos (fits s8 0) sdiv IOBUFLEN) REPORT_EOF OK = Some (s9, OK)"
    using l9 f7 by (simp add: s8_def)
  have f9: "curbuf (fits s9 0) = int 3" "iobuffer s9 3 0 = 89"
    using f7 by (simp_all add: s9_def s8_def IOBUFLEN_def)
  have g1: "ffgbyt_loop s7 0 2 2879 1 [] OK =
              ffgbyt_loop s9 0 (2 - 1) 0 IOBUFLEN ([] @ memcpy_out s7 2 2879 1) OK"
    by (rule ffgbyt_loop_cross [OF f7(5) _ _ _ _ _ s8_def l9']) (simp_all add: NIOBUF_def IOBUFLEN_def)
  have g2: "ffgbyt_loop s9 0 1 0 IOBUFLEN [0] OK =
              Some (upd_file s9 0 (\<lambda>g. g\<lparr>bytepos := bytepos g + 1\<rparr>), [0] @ memcpy_out s9 3 0 1, OK)"
    by (rule ffgbyt_loop_last [OF f9(1)]) (simp_all add: NIOBUF_def IOBUFLEN_def)
  have g: "ffgbyt s7 0 2 OK = Some (upd_file s9 0 (\<lambda>g. g\<lparr>bytepos := bytepos g + 1\<rparr>), [0, 89], OK)"
    using f7 f9 g1 g2 by (simp add: ffgbyt_def valid_buf_def NIOBUF_def MINDIRECT_def IOBUFLEN_def Let_def)
  have "roundtrip flushed_pool 0 2879 [88, 89] =
          then_do (then_do (then_do (Some (s, OK)) (\<lambda>s e. ffflsh s 0 True e))
             (\<lambda>s e. ffmbyt s 0 2879 REPORT_EOF e)) (\<lambda>s e. ffgbyt s 0 2 e)"
    using w by (simp add: roundtrip_def)
  then show ?thesis
    by (simp add: then_do_def fl m2 g first_flush_reached)
qed


subsection \<open>Groups written after a flush that disassociated the buffers\<close>

lemma ffldrc_hit:
  assumes ib: "ib < NIOBUF" "ageindex st ib = v" and own: "bufptr st v = Some F" "bufrecnum st v = rec"
    and uniq: "\<forall>n. bufptr st n = Some F \<and> bufrecnum st n = rec \<longrightarrow> n = v"
  shows "\<exists>ib'. ffldrc st F rec em e = Some (updatebuf st F v (Some ib'), e)"
proof (cases "scan_loaded st F rec NIOBUF")
  case None
  with ib own show ?thesis
    by (auto simp: scan_loaded_None_iff)
next
  case (Some ib')
  from scan_loaded_Some [OF Some] uniq have "ageindex st ib' = v"
    by auto
  with Some show ?thesis
    by (auto simp: ffldrc_def)
qed

lemma put_last_cross:
  assumes "nspace c < gsize" "0 \<le> nspace c" "0 \<le> ioptr c" "ioptr c + nspace c \<le> IOBUFLEN"
    "gsize \<le> int (length cptr)"
    and "s2 = (memcpy_in st (bcurrent c) (ioptr c) cptr (nspace c))\<lparr>dirty := (dirty st)(bcurrent c := True)\<rparr>"
    and "ffldrc s2 F (recno c + 1) IGNORE_EOF status = Some (st3, status3)"
    and "curbuf (fits st3 F) = int b" "b < NIOBUF" "gsize - nspace c \<le> IOBUFLEN"
  shows "put_last F gsize (st, status, c, cptr) =
           Some (memcpy_in st3 b 0 (drop (nat (nspace c)) cptr) (gsize - nspace c), status3, b)"
  using assms(1-5) assms(7) [unfolded assms(6)] assms(8-10)
  by (simp add: put_last_def Let_def min_def valid_buf_def)

lemma get_last_cross:
  assumes "nspace c < gsize" "0 \<le> nspace c" "0 \<le> ioptr c" "ioptr c + nspace c \<le> IOBUFLEN"
    and "ffldrc st F (recno c + 1) REPORT_EOF status = Some (st3, status3)"
    and "curbuf (fits st3 F) = int b" "b < NIOBUF" "gsize - nspace c \<le> IOBUFLEN"
  shows "get_last F gsize (st, status, c, got) =
           Some (st3, status3, got @ memcpy_out st (bcurrent c) (ioptr c) (nspace c)
                                    @ memcpy_out st3 b 0 (gsize - nspace c))"
  using assms by (simp add: get_last_def Let_def min_def valid_buf_def)

text \<open>
  The calls of the round trip of groups: move to \<open>pos\<close>, write the groups, move to \<open>pos\<close>
  again and read groups of the same geometry.
\<close>

definition group_roundtrip ::
  "pool \<Rightarrow> nat \<Rightarrow> int \<Rightarrow> int \<Rightarrow> int \<Rightarrow> int \<Rightarrow> byte list \<Rightarrow> (pool \<times> byte list \<times> status) option" where
  "group_roundtrip st F pos gsize ngroups offset src =
     then_do (then_do (then_do (ffmbyt st F pos IGNORE_EOF OK)
       (\<lambda>s e. ffpbytoff s F gsize ngroups offset src e))
       (\<lambda>s e. ffmbyt s F pos REPORT_EOF e))
       (\<lambda>s e. ffgbytoff s F gsize ngroups offset e)"

lemma stale_put_groups:
  shows "\<exists>s. then_do (ffmbyt flushed_pool 0 2879 IGNORE_EOF OK) (\<lambda>s e. ffpbytoff s 0 2 1 0 [88, 89] e)
               = Some (s, OK)
           \<and> bufptr s = (\<lambda>_. None)(1 := Some 0) \<and> bufrecnum s = (\<lambda>_. 0)(1 := 1)
           \<and> dirty s = (\<lambda>_. False)(0 := True, 1 := True)
           \<and> iobuffer s 1 0 = 89 \<and> iobuffer s 0 2879 = 88
           \<and> ageinit s \<and> ageindex s 0 = 2 \<and> ageindex s 39 = 1
           \<and> fits s 0 = (fits flushed_pool 0)\<lparr>logfilesize := 5760, bytepos := 2881, curbuf := 1\<rparr>"
proof -
  define s1 where "s1 = upd_file flushed_pool 0 (\<lambda>g. g\<lparr>bytepos := 2879\<rparr>)"
  have m1: "ffmbyt flushed_pool 0 2879 IGNORE_EOF OK = Some (s1, OK)"
    by (simp add: ffmbyt_def valid_buf_def s1_def) (simp add: flushed_pool_def NIOBUF_def)
  define c where "c = \<lparr>bcurrent = 0, recno = 0, nspace = 1, ioptr = 2879\<rparr>"
  have sc: "start_cursor s1 0 = c"
    by (simp add: start_cursor_def c_def s1_def flushed_pool_def IOBUFLEN_def)
  define s2 where "s2 = (memcpy_in s1 (bcurrent c) (ioptr c) [88, 89] (nspace c))
                          \<lparr>dirty := (dirty s1)(bcurrent c := True)\<rparr>"
  have f2: "bufptr s2 = (\<lambda>_. None)" "bufrecnum s2 = (\<lambda>_. 0)" "dirty s2 = (\<lambda>_. False)(0 := True)"
    "ageinit s2" "ageindex s2 0 = 1" "ageindex s2 1 = 2" "ageindex s2 39 = 0"
    "fits s2 0 = (fits flushed_pool 0)\<lparr>bytepos := 2879\<rparr>"
    "iobuffer s2 0 2879 = 88"
    by (simp_all add: s2_def c_def s1_def memcpy_in_def upd_file_def flushed_pool_def NIOBUF_def)
  define s3 where "s3 = updatebuf ((upd_file (memset_buffer s2 1 (fill_value (hdutype (fits s2 0)))) 0
                         (\<lambda>g. g\<lparr>logfilesize := max (logfilesize g) (1 * IOBUFLEN + IOBUFLEN)\<rparr>))
                       \<lparr>dirty := (dirty s2)(1 := True), bufptr := (bufptr s2)(1 := Some 0),
                         bufrecnum := (bufrecnum s2)(1 := 1)\<rparr>) 0 1 None"
  have l: "ffldrc s2 0 1 IGNORE_EOF OK = Some (s3, OK)"
    unfolding s3_def
    by (rule ffldrc_oldest_fill)
       (simp_all add: scan_loaded_None_iff f2 reusable_def NIOBUF_def, simp_all add: flushed_pool_def IOBUFLEN_def)
  have l': "ffldrc s2 0 (recno c + 1) IGNORE_EOF OK = Some (s3, OK)"
    using l by (simp add: c_def)
  have f3: "bufptr s3 = (\<lambda>_. None)(1 := Some 0)" "bufrecnum s3 = (\<lambda>_. 0)(1 := 1)"
    "dirty s3 = (\<lambda>_. False)(0 := True, 1 := True)" "ageinit s3"
    "fits s3 0 = (fits flushed_pool 0)\<lparr>logfilesize := 5760, bytepos := 2879, curbuf := 1\<rparr>"
    "iobuffer s3 0 2879 = 88"
    by (simp_all add: s3_def f2 memset_buffer_def upd_file_def) (simp_all add: flushed_pool_def IOBUFLEN_def)
  have a3: "ageindex s3 0 = 2" "ageindex s3 39 = 1"
    using f2 by (simp_all add: s3_def updatebuf_oldest memset_buffer_def NIOBUF_def)
  have c3: "curbuf (fits s3 0) = int 1"
    by (simp add: f3)
  have pl: "put_last 0 2 (s1, OK, c, [88, 89]) =
              Some (memcpy_in s3 1 0 (drop (nat (nspace c)) [88, 89]) (2 - nspace c), OK, 1)"
    by (rule put_last_cross [OF _ _ _ _ _ s2_def l' c3]) (simp_all add: c_def NIOBUF_def IOBUFLEN_def)
  define s4 where "s4 = upd_file ((memcpy_in s3 1 0 [89] 1)\<lparr>dirty := (dirty s3)(1 := True)\<rparr>) 0
                          (\<lambda>g. g\<lparr>bytepos := bytepos g + 2\<rparr>)"
  have p: "ffpbytoff s1 0 2 1 0 [88, 89] OK = Some (s4, OK)"
    by (simp add: ffpbytoff_def sc pl s4_def valid_buf_def) (simp add: c_def s1_def flushed_pool_def NIOBUF_def)
  have "then_do (ffmbyt flushed_pool 0 2879 IGNORE_EOF OK) (\<lambda>s e. ffpbytoff s 0 2 1 0 [88, 89] e) = Some (s4, OK)"
    by (simp add: then_do_def m1 p)
  moreover have "bufptr s4 = (\<lambda>_. None)(1 := Some 0)" "bufrecnum s4 = (\<lambda>_. 0)(1 := 1)"
    "dirty s4 = (\<lambda>_. False)(0 := True, 1 := True)" "iobuffer s4 1 0 = 89" "iobuffer s4 0 2879 = 88"
    "ageinit s4" "ageindex s4 0 = 2" "ageindex s4 39 = 1"
    "fits s4 0 = (fits flushed_pool 0)\<lparr>logfilesize := 5760, bytepos := 2881, curbuf := 1\<rparr>"
    using f3 a3 by (simp_all add: s4_def memcpy_in_def upd_file_def fun_eq_iff)
  ultimately show ?thesis
    by blast
qed

text \<open>
  Claim C8, that groups written and read again with the same geometry from the same
  position come back unchanged, on \<open>flushed_pool\<close>: one group of the two bytes \<open>XY\<close>
  written at position 2879 is read back as \<open>0x00 Y\<close>. The first byte goes into buffer 0,
  which has no owner; the read finds no buffer with record 0 of the file and loads the
  record from disk.
\<close>

theorem group_roundtrip_after_flush:
  "first_flush = Some (flushed_pool, OK)
   \<and> map_option snd (group_roundtrip flushed_pool 0 2879 2 1 0 [88, 89]) = Some ([0, 89], OK)"
proof -
  from stale_put_groups obtain s where
    w: "then_do (ffmbyt flushed_pool 0 2879 IGNORE_EOF OK) (\<lambda>s e. ffpbytoff s 0 2 1 0 [88, 89] e) = Some (s, OK)"
    and fs: "bufptr s = (\<lambda>_. None)(1 := Some 0)" "bufrecnum s = (\<lambda>_. 0)(1 := 1)"
      "dirty s = (\<lambda>_. False)(0 := True, 1 := True)" "iobuffer s 1 0 = 89" "iobuffer s 0 2879 = 88"
      "ageinit s" "ageindex s 0 = 2" "ageindex s 39 = 1"
      "fits s 0 = (fits flushed_pool 0)\<lparr>logfilesize := 5760, bytepos := 2881, curbuf := 1\<rparr>"
    by blast
  have fl0: "filesize (fits s 0) = 2880" "io_pos (fits s 0) = 2880" "dpos (filehandle (fits s 0)) = 2880"
    "dsize (filehandle (fits s 0)) = 2880" "logfilesize (fits s 0) = 5760" "curbuf (fits s 0) = 1"
    "content (filehandle (fits s 0)) 2879 = 0"
    by (simp_all add: fs flushed_pool_def)
  define s6 where "s6 = updatebuf ((upd_file s 0
                         (\<lambda>g. g\<lparr>filehandle := (filehandle (fits s 0))\<lparr>dpos := 0 * IOBUFLEN + IOBUFLEN\<rparr>,
                                io_pos := 0 * IOBUFLEN + IOBUFLEN\<rparr>))
                       \<lparr>iobuffer := (iobuffer s)(2 := (\<lambda>i. if 0 \<le> i \<and> i < IOBUFLEN
                             then content (filehandle (fits s 0)) (0 * IOBUFLEN + i)
                             else iobuffer s 2 i)),
                         bufptr := (bufptr s)(2 := Some 0),
                         bufrecnum := (bufrecnum s)(2 := 0)\<rparr>) 0 2 None"
  have l6: "ffldrc s 0 0 REPORT_EOF OK = Some (s6, OK)"
    unfolding s6_def
    by (rule ffldrc_oldest_read)
       (simp_all add: scan_loaded_None_iff fs(1-8) fl0 reusable_def NIOBUF_def IOBUFLEN_def)
  define s7 where "s7 = upd_file s6 0 (\<lambda>g. g\<lparr>bytepos := 2879\<rparr>)"
  have m2: "ffmbyt s 0 2879 REPORT_EOF OK = Some (s7, OK)"
    by (simp add: ffmbyt_def valid_buf_def fs(1-8) fl0 NIOBUF_def l6 s7_def)
  have f7: "bufptr s7 = (\<lambda>_. None)(1 := Some 0, 2 := Some 0)" "bufrecnum s7 = (\<lambda>_. 0)(1 := 1, 2 := 0)"
    "curbuf (fits s7 0) = 2" "bytepos (fits s7 0) = 2879"
    "iobuffer s7 2 2879 = 0" "iobuffer s7 1 0 = 89"
    using fs(1-8) fl0 by (simp_all add: s7_def s6_def fun_eq_iff IOBUFLEN_def)
  have a7: "ageindex s7 38 = 1"
    using fs(1-8) by (simp add: s7_def s6_def updatebuf_oldest NIOBUF_def)
  define c where "c = \<lparr>bcurrent = 2, recno = 0, nspace = 1, ioptr = 2879\<rparr>"
  have sc: "start_cursor s7 0 = c"
    by (simp add: start_cursor_def c_def f7 IOBUFLEN_def)
  have "\<exists>ib'. ffldrc s7 0 1 REPORT_EOF OK = Some (updatebuf s7 0 1 (Some ib'), OK)"
    by (rule ffldrc_hit [OF _ a7]) (simp_all add: f7 NIOBUF_def)
  then obtain ib' where h: "ffldrc s7 0 (recno c + 1) REPORT_EOF OK = Some (updatebuf s7 0 1 (Some ib'), OK)"
    by (auto simp: c_def)
  have c8: "curbuf (fits (updatebuf s7 0 1 (Some ib')) 0) = int 1"
    by simp
  have gl: "get_last 0 2 (s7, OK, c, []) =
              Some (updatebuf s7 0 1 (Some ib'), OK,
                    [] @ memcpy_out s7 (bcurrent c) (ioptr c) (nspace c)
                       @ memcpy_out (updatebuf s7 0 1 (Some ib')) 1 0 (2 - nspace c))"
    by (rule get_last_cross [OF _ _ _ _ h c8]) (simp_all add: c_def NIOBUF_def IOBUFLEN_def)
  have r: "[] @ memcpy_out s7 (bcurrent c) (ioptr c) (nspace c)
             @ memcpy_out (updatebuf s7 0 1 (Some ib')) 1 0 (2 - nspace c) = [0, 89]"
    using f7 by (simp add: c_def)
  have g: "map_option snd (ffgbytoff s7 0 2 1 0 OK) = Some ([0, 89], OK)"
    using r by (simp add: ffgbytoff_def sc gl valid_buf_def NIOBUF_def f7(3))
  have "group_roundtrip flushed_pool 0 2879 2 1 0 [88, 89] =
          then_do (then_do (Some (s, OK)) (\<lambda>s e. ffmbyt s 0 2879 REPORT_EOF e))
            (\<lambda>s e. ffgbytoff s 0 2 1 0 e)"
    using w by (simp add: group_roundtrip_def)
  then show ?thesis
    by (simp add: then_do_def m2 g first_flush_reached)
qed


subsection \<open>The driver calls of a writeback\<close>




























subsection \<open>The writeback as driver calls\<close>








subsection \<open>The writeback beyond the EOF\<close>






subsection \<open>A write that fails during the writeback\<close>




end
